theory Spec2Isabelle
  imports Main "HOL-Library.AList"
begin

section \<open>JavaScript values, objects and arrays\<close>

text \<open>
  The module \<^verbatim>\<open>lib/cluster-pool.js\<close> keeps, for every cluster, an array of member pools
  and a rotation index. The values that flow through it are numbers, \<^verbatim>\<open>undefined\<close>,
  functions (the resource producers) and plain objects (the factory configuration).
  A function value is identified by a number; an object is the list of its own
  enumerable properties in insertion order.
\<close>

datatype jsval = Undefined | Num int | Str string | Bool bool | Fun nat

type_synonym obj = "(string \<times> jsval) list"

type_synonym addr = nat

datatype js_error = TypeError

text \<open>
  Reading \<^verbatim>\<open>xs[i]\<close> from an array gives \<^verbatim>\<open>undefined\<close> outside \<open>0 \<le> i < length\<close>.
\<close>

definition js_index :: "'a list \<Rightarrow> int \<Rightarrow> 'a option" where
  "js_index xs i = (if 0 \<le> i \<and> i < int (length xs) then Some (xs ! nat i) else None)"

text \<open>
  Writing \<^verbatim>\<open>xs[i] = v\<close> past the end of an array extends it, leaving holes
  (\<open>None\<close>) at the positions that were skipped.
\<close>

definition js_assign :: "'a option list \<Rightarrow> nat \<Rightarrow> 'a \<Rightarrow> 'a option list" where
  "js_assign xs i v =
     (if i < length xs then xs[i := Some v]
      else xs @ replicate (i - length xs) None @ [Some v])"

subsection \<open>The two underscore functions the selection uses\<close>

text \<open>
  \<^verbatim>\<open>_.min(array)\<close> is \<^verbatim>\<open>Math.min\<close> applied to the elements: it starts from
  \<open>+\<infinity>\<close>, and any element that is not a number (a hole reads as \<^verbatim>\<open>undefined\<close>)
  makes the result \<^verbatim>\<open>NaN\<close>. \<^verbatim>\<open>_.indexOf(array, item)\<close> is the first position whose
  element is strictly equal to the item, or \<open>-1\<close>.
\<close>

datatype jsnum = Finite nat | NaN | Infinity

fun ToNumber :: "nat option \<Rightarrow> jsnum" where
  "ToNumber None = NaN"
| "ToNumber (Some n) = Finite n"

fun math_min :: "jsnum \<Rightarrow> jsnum \<Rightarrow> jsnum" where
  "math_min NaN _ = NaN"
| "math_min _ NaN = NaN"
| "math_min Infinity y = y"
| "math_min x Infinity = x"
| "math_min (Finite a) (Finite b) = Finite (min a b)"

definition us_min :: "nat option list \<Rightarrow> jsnum" where
  "us_min xs = foldl math_min Infinity (map ToNumber xs)"

fun strict_eq :: "nat option \<Rightarrow> jsnum \<Rightarrow> bool" where
  "strict_eq (Some n) (Finite m) = (n = m)"
| "strict_eq _ _ = False"

fun indexOf_from :: "nat option list \<Rightarrow> jsnum \<Rightarrow> int \<Rightarrow> int" where
  "indexOf_from [] item i = - 1"
| "indexOf_from (x # xs) item i =
     (if strict_eq x item then i else indexOf_from xs item (i + 1))"

definition us_indexOf :: "nat option list \<Rightarrow> jsnum \<Rightarrow> int" where
  "us_indexOf xs item = indexOf_from xs item 0"

subsection \<open>\<^verbatim>\<open>typeof x == -1\<close>\<close>

text \<open>
  \<^verbatim>\<open>typeof\<close> yields a string. Comparing a string with a number by \<^verbatim>\<open>==\<close> converts the
  string to a number first; a string that is not a numeral converts to \<^verbatim>\<open>NaN\<close>
  (\<open>None\<close> here), which equals nothing. The conversion below reads optionally signed
  decimal integers, which is exact on every string \<^verbatim>\<open>typeof\<close> can produce.
\<close>

definition js_typeof :: "int option \<Rightarrow> string" where
  "js_typeof u = (case u of None \<Rightarrow> ''undefined'' | Some _ \<Rightarrow> ''number'')"

fun digits_value :: "string \<Rightarrow> nat \<Rightarrow> nat option" where
  "digits_value [] acc = Some acc"
| "digits_value (c # cs) acc =
     (if 48 \<le> (of_char c :: nat) \<and> (of_char c :: nat) \<le> 57
      then digits_value cs (10 * acc + (of_char c - 48))
      else None)"

definition StringToNumber :: "string \<Rightarrow> int option" where
  "StringToNumber s =
     (case s of
        [] \<Rightarrow> Some 0
      | c # cs \<Rightarrow>
          if c = CHR ''-'' then (if cs = [] then None else map_option (\<lambda>n. - int n) (digits_value cs 0))
          else if c = CHR ''+'' then (if cs = [] then None else map_option int (digits_value cs 0))
          else map_option int (digits_value s 0))"

definition loose_eq_string_number :: "string \<Rightarrow> int \<Rightarrow> bool" where
  "loose_eq_string_number s n = (StringToNumber s = Some n)"

section \<open>Member pools and the cluster object\<close>

text \<open>
  A member is an instance of the external generic pool. The cluster only ever calls
  \<^verbatim>\<open>waitingClientsCount()\<close>, \<^verbatim>\<open>getPoolSize()\<close>, \<^verbatim>\<open>availableObjectsCount()\<close> and
  \<^verbatim>\<open>acquire(callback)\<close> on it, so a pool is the three counts it reports. What
  \<^verbatim>\<open>acquire\<close> does to a pool is the pool's own business and is a parameter of the model.
\<close>

record pool =
  pool_waitingClientsCount :: nat
  pool_getPoolSize :: nat
  pool_availableObjectsCount :: nat

text \<open>
  The object \<^verbatim>\<open>me\<close> built by \<^verbatim>\<open>create\<close>: its two fields, and the \<^verbatim>\<open>factory\<close>
  variable its methods close over (a reference to the object the caller passed).
\<close>

record me =
  cluster :: "pool list"
  index :: int
  factory :: addr

section \<open>acquire\<close>

text \<open>
  The local variables of \<^verbatim>\<open>me.acquire\<close> that the selection loop reads and writes.
  \<open>visited\<close> is not a variable of the source: it records, in call order, the members
  whose \<^verbatim>\<open>waitingClientsCount()\<close> has been called.
\<close>

record scan_state =
  tryIndex :: int
  useIndex :: "int option"
  poolWaiting :: "nat option list"
  checked :: nat
  visited :: "nat list"

text \<open>
  The \<^verbatim>\<open>while\<close> loop. \<^verbatim>\<open>this.cluster[tryIndex]\<close> is \<^verbatim>\<open>undefined\<close> when
  \<open>tryIndex\<close> is out of range, and calling a method on it throws.
\<close>

function scan :: "pool list \<Rightarrow> scan_state \<Rightarrow> (js_error \<times> nat list) + scan_state" where
  "scan cl s =
     (if checked s < length cl \<and> useIndex s = None then
        (case js_index cl (tryIndex s) of
           None \<Rightarrow> Inl (TypeError, visited s)
         | Some p \<Rightarrow>
             (let w = pool_waitingClientsCount p;
                  s1 = s\<lparr>poolWaiting := js_assign (poolWaiting s) (nat (tryIndex s)) w,
                         checked := checked s + 1,
                         visited := visited s @ [nat (tryIndex s)]\<rparr>
              in if w = 0 then scan cl (s1\<lparr>useIndex := Some (tryIndex s)\<rparr>)
                 else scan cl (s1\<lparr>tryIndex :=
                        (if tryIndex s + 1 \<ge> int (length cl) then 0 else tryIndex s + 1)\<rparr>)))
      else Inr s)"
  by pat_completeness auto
termination
  by (relation "measure (\<lambda>(cl, s). length cl - checked s)") auto

declare scan.simps [simp del]

text \<open>
  What the caller of \<^verbatim>\<open>acquire\<close> can observe of one call: the callback invoked
  at once with an error, the acquire of member \<open>i\<close> invoked with the given priority
  argument (\<open>None\<close> when no such argument is passed), or an exception.
\<close>

datatype outcome = Callback string | Delegate nat "int option" | Throw js_error

definition scan_init :: "me \<Rightarrow> scan_state" where
  "scan_init this =
     \<lparr>tryIndex = index this, useIndex = None, poolWaiting = [], checked = 0, visited = []\<rparr>"

text \<open>Lines 110 to 112: the fallback when the loop has left \<open>useIndex\<close> undefined.\<close>

definition fallback :: "scan_state \<Rightarrow> int" where
  "fallback s =
     (case useIndex s of
        None \<Rightarrow> us_indexOf (poolWaiting s) (us_min (poolWaiting s))
      | Some u \<Rightarrow> u)"

text \<open>Lines 114 to 116: the guard \<^verbatim>\<open>typeof useIndex == -1\<close> and the reset it protects.\<close>

definition recovery_guard :: "int option \<Rightarrow> bool" where
  "recovery_guard u = loose_eq_string_number (js_typeof u) (- 1)"

definition recover :: "me \<Rightarrow> int \<Rightarrow> int" where
  "recover this u = (if recovery_guard (Some u) then index this else u)"

text \<open>Lines 118 to 124: the index stored for the next call.\<close>

definition next_index :: "me \<Rightarrow> int \<Rightarrow> int" where
  "next_index this u =
     (let i1 = u + 1;
          i2 = (if i1 \<ge> int (length (cluster this)) then 0 else i1);
          u' = u + 1
      in if u' \<ge> int (length (cluster this)) then 0 else u')"

text \<open>
  The whole method. \<open>pool_acquire p a\<close> is the state of pool \<open>p\<close> after its own
  \<^verbatim>\<open>acquire\<close> has been called with priority argument \<open>a\<close>. The result is the cluster
  object afterwards, the members whose waiting count was read, and the outcome.
\<close>

definition acquire ::
  "(pool \<Rightarrow> int option \<Rightarrow> pool) \<Rightarrow> me \<Rightarrow> int option \<Rightarrow> me \<times> nat list \<times> outcome" where
  "acquire pool_acquire this priority =
     (if length (cluster this) = 0 then
        (this, [], Callback ''No servers added to cluster yet'')
      else
        (case scan (cluster this) (scan_init this) of
           Inl (e, vs) \<Rightarrow> (this, vs, Throw e)
         | Inr s \<Rightarrow>
             (let u = recover this (fallback s);
                  this' = this\<lparr>index := next_index this u\<rparr>
              in case js_index (cluster this) u of
                   None \<Rightarrow> (this', visited s, Throw TypeError)
                 | Some p \<Rightarrow>
                     (this'\<lparr>cluster := (cluster this)[nat u := pool_acquire p None]\<rparr>,
                      visited s, Delegate (nat u) None))))"

section \<open>create, add and the statistics\<close>

text \<open>
  Objects live in a heap, a list indexed by address, so that two references to one
  object are visible as such. A reference to nothing (an address outside the heap)
  has no property to enumerate.
\<close>

definition heap_get :: "obj list \<Rightarrow> addr \<Rightarrow> obj" where
  "heap_get h a = (if a < length h then h ! a else [])"

definition prop_get :: "obj \<Rightarrow> string \<Rightarrow> jsval" where
  "prop_get ob k = (case map_of ob k of None \<Rightarrow> Undefined | Some v \<Rightarrow> v)"

definition heap_set :: "obj list \<Rightarrow> addr \<Rightarrow> string \<Rightarrow> jsval \<Rightarrow> obj list" where
  "heap_set h a k v = (if a < length h then h[a := AList.update k v (h ! a)] else h)"

text \<open>
  The \<^verbatim>\<open>for (var i in factory) pool_factory[i] = factory[i]\<close> loop of \<^verbatim>\<open>add\<close>:
  the keys are those of the source object when the loop starts, each value is read
  from the heap as it is at that iteration.
\<close>

definition copy_fields :: "obj list \<Rightarrow> addr \<Rightarrow> addr \<Rightarrow> obj list" where
  "copy_fields h src dst =
     fold (\<lambda>i h'. heap_set h' dst i (prop_get (heap_get h' src) i)) (map fst (heap_get h src)) h"

text \<open>Lines 61 to 65 of \<^verbatim>\<open>add\<close>: the new heap and the address of \<^verbatim>\<open>pool_factory\<close>.\<close>

definition build_pool_factory :: "obj list \<Rightarrow> addr \<Rightarrow> jsval \<Rightarrow> obj list \<times> addr" where
  "build_pool_factory h fac create_fn =
     (let pool_factory = length h;
          h1 = h @ [[]];
          h2 = copy_fields h1 fac pool_factory;
          h3 = heap_set h2 pool_factory ''create'' create_fn
      in (h3, pool_factory))"

text \<open>
  \<^verbatim>\<open>add\<close>. The constructor of the external pool is a parameter: given the contents
  of the object it is handed, \<open>Pool\<close> returns what it leaves in that object and the
  pool instance. The instance is pushed on \<^verbatim>\<open>this.cluster\<close>.
\<close>

definition add :: "(obj \<Rightarrow> obj \<times> pool) \<Rightarrow> jsval \<Rightarrow> obj list \<times> me \<Rightarrow> obj list \<times> me" where
  "add Pool create_fn hm =
     (case hm of (h, this) \<Rightarrow>
        (case build_pool_factory h (factory this) create_fn of (h3, pool_factory) \<Rightarrow>
           (case Pool (heap_get h3 pool_factory) of (ob, p) \<Rightarrow>
              (h3[pool_factory := ob], this\<lparr>cluster := cluster this @ [p]\<rparr>))))"

definition getClusterSize :: "me \<Rightarrow> nat" where
  "getClusterSize this = length (cluster this)"

definition getPoolSize :: "me \<Rightarrow> nat" where
  "getPoolSize this = foldl (\<lambda>count p. count + pool_getPoolSize p) 0 (cluster this)"

definition availableObjectsCount :: "me \<Rightarrow> nat" where
  "availableObjectsCount this =
     foldl (\<lambda>count p. count + pool_availableObjectsCount p) 0 (cluster this)"

definition waitingClientsCount :: "me \<Rightarrow> nat" where
  "waitingClientsCount this =
     foldl (\<lambda>count p. count + pool_waitingClientsCount p) 0 (cluster this)"

subsection \<open>Several clusters\<close>

text \<open>
  Several cluster objects side by side, each with its members by value, over one heap
  of plain objects: enough to see what \<^verbatim>\<open>add\<close> does to the factory object that the
  clusters share. A method call \<^verbatim>\<open>h.add(...)\<close> runs the method with \<^verbatim>\<open>this\<close> bound to
  the object behind the handle \<open>h\<close>. A handle that denotes no object has no method to
  call: the call throws and changes nothing.
\<close>

record world =
  heap :: "obj list"
  clusters :: "me list"

definition new_me :: "addr \<Rightarrow> me" where
  "new_me fac = \<lparr>cluster = [], index = 0, factory = fac\<rparr>"

definition call_add :: "(obj \<Rightarrow> obj \<times> pool) \<Rightarrow> nat \<Rightarrow> jsval \<Rightarrow> world \<Rightarrow> world" where
  "call_add Pool h create_fn w =
     (if h < length (clusters w) then
        (case add Pool create_fn (heap w, clusters w ! h) of
           (hp, m) \<Rightarrow> \<lparr>heap = hp, clusters = (clusters w)[h := m]\<rparr>)
      else w)"

subsection \<open>Sequences of calls on one cluster\<close>

datatype operation = Add jsval | Acquire "int option"

fun apply_operation ::
  "(obj \<Rightarrow> obj \<times> pool) \<Rightarrow> (pool \<Rightarrow> int option \<Rightarrow> pool) \<Rightarrow>
   obj list \<times> me \<Rightarrow> operation \<Rightarrow> obj list \<times> me" where
  "apply_operation Pool pool_acquire hm (Add create_fn) = add Pool create_fn hm"
| "apply_operation Pool pool_acquire hm (Acquire priority) =
     (fst hm, fst (acquire pool_acquire (snd hm) priority))"

definition run ::
  "(obj \<Rightarrow> obj \<times> pool) \<Rightarrow> (pool \<Rightarrow> int option \<Rightarrow> pool) \<Rightarrow>
   operation list \<Rightarrow> obj list \<times> me \<Rightarrow> obj list \<times> me" where
  "run Pool pool_acquire ops hm = foldl (apply_operation Pool pool_acquire) hm ops"

text \<open>The outcomes of consecutive \<^verbatim>\<open>acquire\<close> calls, one per priority argument given.\<close>

fun acquire_seq ::
  "(pool \<Rightarrow> int option \<Rightarrow> pool) \<Rightarrow> me \<Rightarrow> int option list \<Rightarrow> outcome list" where
  "acquire_seq pool_acquire this [] = []"
| "acquire_seq pool_acquire this (priority # ps) =
     (case acquire pool_acquire this priority of
        (this', vs, out) \<Rightarrow> out # acquire_seq pool_acquire this' ps)"

subsection \<open>Cluster objects, member arrays and pools by reference\<close>

text \<open>
  What two clusters can share shows only when the things they hold are references.
  Here the object \<^verbatim>\<open>me\<close>, the array in its \<^verbatim>\<open>cluster\<close> field and the pool instances in
  that array are kept in a store, each kind in a list indexed by address. An object
  \<^verbatim>\<open>me\<close> holds the address of its array, an array holds addresses of pools.
\<close>

record me_obj =
  me_cluster :: addr
  me_index :: int
  me_factory :: addr

record store =
  s_objects :: "obj list"
  s_arrays :: "addr list list"
  s_pools :: "pool list"
  s_mes :: "me_obj list"

text \<open>
  \<^verbatim>\<open>this\<close> as a method called on handle \<open>h\<close> reads it: the index, and the members
  reached through the array that \<^verbatim>\<open>this.cluster\<close> refers to.
\<close>

definition this_of :: "store \<Rightarrow> nat \<Rightarrow> me" where
  "this_of s h =
     \<lparr>cluster = map (\<lambda>p. s_pools s ! p) (s_arrays s ! me_cluster (s_mes s ! h)),
      index = me_index (s_mes s ! h),
      factory = me_factory (s_mes s ! h)\<rparr>"

text \<open>
  \<^verbatim>\<open>create\<close>: the literal \<^verbatim>\<open>{cluster: [], index: 0}\<close> allocates a new array and a new
  object; the caller gets the address of the object.
\<close>

definition create :: "addr \<Rightarrow> store \<Rightarrow> store \<times> nat" where
  "create fac s =
     (s\<lparr>s_arrays := s_arrays s @ [[]],
        s_mes := s_mes s @ [\<lparr>me_cluster = length (s_arrays s), me_index = 0, me_factory = fac\<rparr>]\<rparr>,
      length (s_mes s))"

text \<open>
  \<^verbatim>\<open>h.add(create_fn)\<close>: the pool that the constructor returns is a new instance, and
  \<^verbatim>\<open>push\<close> appends its address to the array that \<^verbatim>\<open>this.cluster\<close> refers to.
\<close>

definition store_add :: "(obj \<Rightarrow> obj \<times> pool) \<Rightarrow> nat \<Rightarrow> jsval \<Rightarrow> store \<Rightarrow> store" where
  "store_add Pool h create_fn s =
     (if h < length (s_mes s) then
        (case build_pool_factory (s_objects s) (me_factory (s_mes s ! h)) create_fn of
           (h3, pool_factory) \<Rightarrow>
             (case Pool (heap_get h3 pool_factory) of
                (ob, p) \<Rightarrow>
                  s\<lparr>s_objects := h3[pool_factory := ob],
                    s_pools := s_pools s @ [p],
                    s_arrays := (s_arrays s)[me_cluster (s_mes s ! h) :=
                       s_arrays s ! me_cluster (s_mes s ! h) @ [length (s_pools s)]]\<rparr>))
      else s)"

text \<open>
  \<^verbatim>\<open>h.acquire(callback, priority)\<close>: the method runs on what it reads through \<^verbatim>\<open>this\<close>;
  it assigns to \<^verbatim>\<open>this.index\<close>, and the acquire it delegates to changes the pool that
  \<^verbatim>\<open>this.cluster[useIndex]\<close> refers to.
\<close>

definition store_acquire ::
  "(pool \<Rightarrow> int option \<Rightarrow> pool) \<Rightarrow> nat \<Rightarrow> int option \<Rightarrow> store \<Rightarrow> store \<times> outcome" where
  "store_acquire pool_acquire h priority s =
     (if h < length (s_mes s) then
        (case acquire pool_acquire (this_of s h) priority of
           (this', vs, out) \<Rightarrow>
             (let s1 = s\<lparr>s_mes := (s_mes s)[h := (s_mes s ! h)\<lparr>me_index := index this'\<rparr>]\<rparr>
              in case out of
                   Delegate i a \<Rightarrow>
                     (let p = s_arrays s ! me_cluster (s_mes s ! h) ! i
                      in (s1\<lparr>s_pools := (s_pools s)[p := pool_acquire (s_pools s ! p) a]\<rparr>, out))
                 | _ \<Rightarrow> (s1, out)))
      else (s, Throw TypeError))"

text \<open>A program: calls of \<^verbatim>\<open>create\<close> and of the methods, from a store with no cluster.\<close>

datatype call = Create addr | CallAdd nat jsval | CallAcquire nat "int option"

fun apply_call ::
  "(obj \<Rightarrow> obj \<times> pool) \<Rightarrow> (pool \<Rightarrow> int option \<Rightarrow> pool) \<Rightarrow> store \<Rightarrow> call \<Rightarrow> store" where
  "apply_call Pool pool_acquire s (Create fac) = fst (create fac s)"
| "apply_call Pool pool_acquire s (CallAdd h create_fn) = store_add Pool h create_fn s"
| "apply_call Pool pool_acquire s (CallAcquire h priority) =
     fst (store_acquire pool_acquire h priority s)"

definition initial_store :: "obj list \<Rightarrow> store" where
  "initial_store obs = \<lparr>s_objects = obs, s_arrays = [], s_pools = [], s_mes = []\<rparr>"

definition store_run ::
  "(obj \<Rightarrow> obj \<times> pool) \<Rightarrow> (pool \<Rightarrow> int option \<Rightarrow> pool) \<Rightarrow> call list \<Rightarrow> store \<Rightarrow> store" where
  "store_run Pool pool_acquire calls s = foldl (apply_call Pool pool_acquire) s calls"

text \<open>
  No sharing: every cluster object refers to an array of its own, no array holds a pool
  twice, and the arrays of different cluster objects hold no pool in common; all
  references lead somewhere.
\<close>

definition separated :: "store \<Rightarrow> bool" where
  "separated s \<longleftrightarrow>
     (\<forall>h<length (s_mes s). me_cluster (s_mes s ! h) < length (s_arrays s)) \<and>
     (\<forall>h<length (s_mes s). \<forall>h'<length (s_mes s).
        h \<noteq> h' \<longrightarrow> me_cluster (s_mes s ! h) \<noteq> me_cluster (s_mes s ! h')) \<and>
     (\<forall>r<length (s_arrays s). \<forall>p\<in>set (s_arrays s ! r). p < length (s_pools s)) \<and>
     (\<forall>r<length (s_arrays s). distinct (s_arrays s ! r)) \<and>
     (\<forall>r<length (s_arrays s). \<forall>r'<length (s_arrays s).
        r \<noteq> r' \<longrightarrow> set (s_arrays s ! r) \<inter> set (s_arrays s ! r') = {})"

section \<open>The selection as the specification words it\<close>

text \<open>
  The specification describes the scan as visiting index \<open>(Cursor + k) mod N\<close> for
  \<open>k = 0..N-1\<close>. These two definitions follow its words; the theorems below compare
  the loop of the source with them.
\<close>

definition spec_visit :: "nat \<Rightarrow> nat \<Rightarrow> nat \<Rightarrow> nat" where
  "spec_visit N cur k = (cur + k) mod N"

definition spec_scan_order :: "nat \<Rightarrow> nat \<Rightarrow> nat list" where
  "spec_scan_order N cur = map (spec_visit N cur) [0..<N]"

text \<open>
  The relation between the array \<^verbatim>\<open>poolWaiting\<close> and the members visited so far that
  the loop maintains: a position holds the waiting count of its member if that member
  has been visited and is a hole otherwise, and every visited position exists.
\<close>

definition pw_inv :: "pool list \<Rightarrow> nat option list \<Rightarrow> nat list \<Rightarrow> bool" where
  "pw_inv cl pw vs \<longleftrightarrow>
     length pw \<le> length cl \<and>
     (\<forall>i<length pw. pw ! i =
        (if i \<in> set vs then Some (pool_waitingClientsCount (cl ! i)) else None)) \<and>
     (\<forall>i\<in>set vs. i < length pw)"

text \<open>The invariant on the rotation index that \<^verbatim>\<open>add\<close> and \<^verbatim>\<open>acquire\<close> keep.\<close>

definition index_ok :: "me \<Rightarrow> bool" where
  "index_ok this \<longleftrightarrow>
     0 \<le> index this \<and> (index this = 0 \<or> index this < int (length (cluster this)))"

section \<open>The loop, step by step\<close>

lemma scan_stop: "\<not> (checked s < length cl \<and> useIndex s = None) \<Longrightarrow> scan cl s = Inr s"
  by (subst scan.simps) (rule if_not_P)

lemma scan_throw:
  "checked s < length cl \<Longrightarrow> useIndex s = None \<Longrightarrow> js_index cl (tryIndex s) = None \<Longrightarrow>
   scan cl s = Inl (TypeError, visited s)"
  by (subst scan.simps) simp

lemma scan_found:
  "checked s < length cl \<Longrightarrow> useIndex s = None \<Longrightarrow> js_index cl (tryIndex s) = Some p \<Longrightarrow>
   pool_waitingClientsCount p = 0 \<Longrightarrow>
   scan cl s = Inr (s\<lparr>poolWaiting := js_assign (poolWaiting s) (nat (tryIndex s)) 0,
                      checked := checked s + 1,
                      visited := visited s @ [nat (tryIndex s)],
                      useIndex := Some (tryIndex s)\<rparr>)"
  by (subst scan.simps) (simp add: scan_stop)

lemma scan_next:
  "checked s < length cl \<Longrightarrow> useIndex s = None \<Longrightarrow> js_index cl (tryIndex s) = Some p \<Longrightarrow>
   pool_waitingClientsCount p \<noteq> 0 \<Longrightarrow>
   scan cl s =
     scan cl (s\<lparr>poolWaiting :=
                   js_assign (poolWaiting s) (nat (tryIndex s)) (pool_waitingClientsCount p),
                 checked := checked s + 1,
                 visited := visited s @ [nat (tryIndex s)],
                 tryIndex := (if tryIndex s + 1 \<ge> int (length cl) then 0 else tryIndex s + 1)\<rparr>)"
  by (subst scan.simps) (simp add: Let_def)

lemma pw_inv_assign:
  "pw_inv cl pw vs \<Longrightarrow> t < length cl \<Longrightarrow>
   pw_inv cl (js_assign pw t (pool_waitingClientsCount (cl ! t))) (vs @ [t])"
  unfolding pw_inv_def js_assign_def
  by (auto simp: nth_append nth_list_update)

lemma pw_inv_full:
  assumes "pw_inv cl pw vs" "set vs = {0..<length cl}"
  shows "pw = map (\<lambda>p. Some (pool_waitingClientsCount p)) cl"
proof (rule nth_equalityI)
  show len: "length pw = length (map (\<lambda>p. Some (pool_waitingClientsCount p)) cl)"
  proof (cases "cl = []")
    case True
    then show ?thesis using assms(1) by (simp add: pw_inv_def)
  next
    case False
    then have "length cl - 1 \<in> set vs" using assms(2) by simp
    then have "length cl - 1 < length pw" using assms(1) by (simp add: pw_inv_def)
    moreover have "length pw \<le> length cl" using assms(1) by (simp add: pw_inv_def)
    ultimately show ?thesis by simp
  qed
  fix i assume "i < length pw"
  then show "pw ! i = map (\<lambda>p. Some (pool_waitingClientsCount p)) cl ! i"
    using assms len by (simp add: pw_inv_def)
qed

subsection \<open>The rotation visits every member once\<close>

lemma spec_visit_less: "0 < N \<Longrightarrow> spec_visit N cur k < N"
  by (simp add: spec_visit_def)

lemma spec_visit_surj:
  assumes "cur < N" "i < N"
  shows "\<exists>k<N. spec_visit N cur k = i"
proof (cases "cur \<le> i")
  case True
  then have "spec_visit N cur (i - cur) = i" using assms by (simp add: spec_visit_def)
  moreover have "i - cur < N" using assms by simp
  ultimately show ?thesis by blast
next
  case False
  then have "cur + (i + N - cur) = i + N" using assms by simp
  then have "spec_visit N cur (i + N - cur) = i" using assms by (simp add: spec_visit_def)
  moreover have "i + N - cur < N" using assms False by simp
  ultimately show ?thesis by blast
qed

lemma set_spec_scan_order: "cur < N \<Longrightarrow> set (spec_scan_order N cur) = {0..<N}"
proof (intro equalityI subsetI)
  fix x assume "cur < N" "x \<in> set (spec_scan_order N cur)"
  then show "x \<in> {0..<N}" by (auto simp: spec_scan_order_def spec_visit_def)
next
  fix x assume "cur < N" "x \<in> {0..<N}"
  then obtain k where "k < N" "spec_visit N cur k = x" using spec_visit_surj [of cur N x] by auto
  then show "x \<in> set (spec_scan_order N cur)" unfolding spec_scan_order_def by force
qed

subsection \<open>The loop from any point of the rotation\<close>

lemma scan_run:
  assumes N: "length cl = N" and cur: "cur < N"
  shows "c \<le> N \<Longrightarrow> checked s = c \<Longrightarrow> tryIndex s = int (spec_visit N cur c) \<Longrightarrow>
     useIndex s = None \<Longrightarrow> pw_inv cl (poolWaiting s) (visited s) \<Longrightarrow>
     \<exists>s'. scan cl s = Inr s' \<and> pw_inv cl (poolWaiting s') (visited s') \<and>
       ((\<exists>k. c \<le> k \<and> k < N \<and> pool_waitingClientsCount (cl ! spec_visit N cur k) = 0 \<and>
             (\<forall>j. c \<le> j \<and> j < k \<longrightarrow> pool_waitingClientsCount (cl ! spec_visit N cur j) \<noteq> 0) \<and>
             useIndex s' = Some (int (spec_visit N cur k)) \<and>
             visited s' = visited s @ map (spec_visit N cur) [c..<Suc k])
        \<or> ((\<forall>j. c \<le> j \<and> j < N \<longrightarrow> pool_waitingClientsCount (cl ! spec_visit N cur j) \<noteq> 0) \<and>
            useIndex s' = None \<and>
            visited s' = visited s @ map (spec_visit N cur) [c..<N]))"
proof (induction "N - c" arbitrary: c s)
  case 0
  then have "c = N" by simp
  with 0 N show ?case by (simp add: scan_stop)
next
  case (Suc n)
  then have cN: "c < N" by simp
  let ?t = "spec_visit N cur c"
  have tN: "?t < N" using cur by (simp add: spec_visit_def)
  have idx: "js_index cl (tryIndex s) = Some (cl ! ?t)"
    using tN N Suc.prems by (simp add: js_index_def)
  have chk: "checked s < length cl" using cN N Suc.prems by simp
  have nt: "nat (tryIndex s) = ?t" using Suc.prems(3) by simp
  have inv1: "pw_inv cl (js_assign (poolWaiting s) (nat (tryIndex s))
                 (pool_waitingClientsCount (cl ! ?t))) (visited s @ [nat (tryIndex s)])"
    unfolding nt using pw_inv_assign [OF Suc.prems(5), of ?t] tN N by simp
  show ?case
  proof (cases "pool_waitingClientsCount (cl ! ?t) = 0")
    case True
    let ?s1 = "s\<lparr>poolWaiting := js_assign (poolWaiting s) (nat (tryIndex s)) 0,
                      checked := checked s + 1,
                      visited := visited s @ [nat (tryIndex s)],
                      useIndex := Some (tryIndex s)\<rparr>"
    have r: "scan cl s = Inr ?s1"
      using scan_found [OF chk Suc.prems(4) idx True] .
    have i: "pw_inv cl (poolWaiting ?s1) (visited ?s1)" using inv1 True by simp
    have "c \<le> c \<and> c < N \<and> pool_waitingClientsCount (cl ! spec_visit N cur c) = 0 \<and>
             (\<forall>j. c \<le> j \<and> j < c \<longrightarrow> pool_waitingClientsCount (cl ! spec_visit N cur j) \<noteq> 0) \<and>
             useIndex ?s1 = Some (int (spec_visit N cur c)) \<and>
             visited ?s1 = visited s @ map (spec_visit N cur) [c..<Suc c]"
      using cN True Suc.prems(3) by simp
    then show ?thesis using r i by blast
  next
    case False
    let ?s2 = "s\<lparr>poolWaiting := js_assign (poolWaiting s) (nat (tryIndex s))
                                   (pool_waitingClientsCount (cl ! ?t)),
                      checked := checked s + 1,
                      visited := visited s @ [nat (tryIndex s)],
                      tryIndex := (if tryIndex s + 1 \<ge> int (length cl) then 0 else tryIndex s + 1)\<rparr>"
    have step: "scan cl s = scan cl ?s2"
      using scan_next [OF chk Suc.prems(4) idx False] .
    have nxt: "tryIndex ?s2 = int (spec_visit N cur (Suc c))"
      using Suc.prems(3) N tN by (auto simp: spec_visit_def mod_Suc)
    have i2: "pw_inv cl (poolWaiting ?s2) (visited ?s2)" using inv1 by simp
    have "n = N - Suc c" using Suc.hyps(2) by simp
    from Suc.hyps(1) [OF this, of ?s2] cN Suc.prems(1,2,4) nxt i2
    obtain s' where s': "scan cl ?s2 = Inr s'" and inv': "pw_inv cl (poolWaiting s') (visited s')"
      and alt: "(\<exists>k. Suc c \<le> k \<and> k < N \<and> pool_waitingClientsCount (cl ! spec_visit N cur k) = 0 \<and>
             (\<forall>j. Suc c \<le> j \<and> j < k \<longrightarrow> pool_waitingClientsCount (cl ! spec_visit N cur j) \<noteq> 0) \<and>
             useIndex s' = Some (int (spec_visit N cur k)) \<and>
             visited s' = visited ?s2 @ map (spec_visit N cur) [Suc c..<Suc k])
        \<or> ((\<forall>j. Suc c \<le> j \<and> j < N \<longrightarrow> pool_waitingClientsCount (cl ! spec_visit N cur j) \<noteq> 0) \<and>
            useIndex s' = None \<and>
            visited s' = visited ?s2 @ map (spec_visit N cur) [Suc c..<N])"
      by auto
    have vis: "visited ?s2 = visited s @ [spec_visit N cur c]" using Suc.prems(3) by simp
    from alt show ?thesis
    proof
      assume "\<exists>k. Suc c \<le> k \<and> k < N \<and> pool_waitingClientsCount (cl ! spec_visit N cur k) = 0 \<and>
             (\<forall>j. Suc c \<le> j \<and> j < k \<longrightarrow> pool_waitingClientsCount (cl ! spec_visit N cur j) \<noteq> 0) \<and>
             useIndex s' = Some (int (spec_visit N cur k)) \<and>
             visited s' = visited ?s2 @ map (spec_visit N cur) [Suc c..<Suc k]"
      then obtain k where k: "Suc c \<le> k" "k < N"
        "pool_waitingClientsCount (cl ! spec_visit N cur k) = 0"
        "\<forall>j. Suc c \<le> j \<and> j < k \<longrightarrow> pool_waitingClientsCount (cl ! spec_visit N cur j) \<noteq> 0"
        "useIndex s' = Some (int (spec_visit N cur k))"
        "visited s' = visited ?s2 @ map (spec_visit N cur) [Suc c..<Suc k]" by blast
      have a: "\<forall>j. c \<le> j \<and> j < k \<longrightarrow> pool_waitingClientsCount (cl ! spec_visit N cur j) \<noteq> 0"
        using k(4) False by (metis Suc_leI le_neq_implies_less)
      have b: "visited s' = visited s @ map (spec_visit N cur) [c..<Suc k]"
        using k(1,6) vis by (simp add: upt_conv_Cons [of c "Suc k"] del: upt_Suc)
      have "c \<le> k" using k(1) by simp
      with step s' inv' k(2,3,5) a b show ?thesis by auto
    next
      assume h: "(\<forall>j. Suc c \<le> j \<and> j < N \<longrightarrow> pool_waitingClientsCount (cl ! spec_visit N cur j) \<noteq> 0) \<and>
            useIndex s' = None \<and>
            visited s' = visited ?s2 @ map (spec_visit N cur) [Suc c..<N]"
      have a: "\<forall>j. c \<le> j \<and> j < N \<longrightarrow> pool_waitingClientsCount (cl ! spec_visit N cur j) \<noteq> 0"
        using h False by (metis Suc_leI le_neq_implies_less)
      have b: "visited s' = visited s @ map (spec_visit N cur) [c..<N]"
        using h cN vis by (simp add: upt_conv_Cons [of c N])
      show ?thesis using step s' inv' h a b by auto
    qed
  qed
qed

subsection \<open>Minimum and first position\<close>

lemma math_min_fold:
  "\<exists>m. foldl math_min (Finite a) (map ToNumber (map Some xs)) = Finite m \<and>
       m \<in> insert a (set xs) \<and> (\<forall>y\<in>insert a (set xs). m \<le> y)"
proof (induction xs arbitrary: a)
  case Nil
  show ?case by simp
next
  case (Cons x xs)
  from Cons [of "min a x"] obtain m where
    m: "foldl math_min (Finite (min a x)) (map ToNumber (map Some xs)) = Finite m"
       "m \<in> insert (min a x) (set xs)" "\<forall>y\<in>insert (min a x) (set xs). m \<le> y"
    by blast
  have "m \<in> insert a (set (x # xs))" using m(2) by (auto simp: min_def split: if_splits)
  moreover have "\<forall>y\<in>insert a (set (x # xs)). m \<le> y" using m(3) by auto
  ultimately show ?case using m(1) by simp
qed

lemma us_min_full:
  assumes "xs \<noteq> []"
  shows "\<exists>m. us_min (map Some xs) = Finite m \<and> m \<in> set xs \<and> (\<forall>y\<in>set xs. m \<le> y)"
proof -
  obtain x xs' where xs: "xs = x # xs'" using assms by (cases xs) auto
  from math_min_fold [of x xs'] show ?thesis
    unfolding xs us_min_def by auto
qed

lemma indexOf_from_first:
  "m \<in> set xs \<Longrightarrow>
     \<exists>k<length xs. indexOf_from (map Some xs) (Finite m) i0 = i0 + int k \<and>
        xs ! k = m \<and> (\<forall>j<k. xs ! j \<noteq> m)"
proof (induction xs arbitrary: i0)
  case Nil
  then show ?case by simp
next
  case (Cons x xs)
  show ?case
  proof (cases "x = m")
    case True
    then show ?thesis by (intro exI [of _ 0]) simp
  next
    case False
    then have "m \<in> set xs" using Cons.prems by simp
    from Cons.IH [OF this, of "i0 + 1"] obtain k where
      k: "k < length xs" "indexOf_from (map Some xs) (Finite m) (i0 + 1) = i0 + 1 + int k"
         "xs ! k = m" "\<forall>j<k. xs ! j \<noteq> m" by blast
    have "\<forall>j<Suc k. (x # xs) ! j \<noteq> m"
      using False k(4) by (auto simp: nth_Cons split: nat.splits)
    with k False show ?thesis by (intro exI [of _ "Suc k"]) simp
  qed
qed

lemma fallback_least_loaded:
  assumes "ws \<noteq> []"
  shows "\<exists>k<length ws. us_indexOf (map Some ws) (us_min (map Some ws)) = int k \<and>
           (\<forall>j<length ws. ws ! k \<le> ws ! j) \<and> (\<forall>j<k. ws ! k < ws ! j)"
proof -
  from us_min_full [OF assms] obtain m where
    m: "us_min (map Some ws) = Finite m" "m \<in> set ws" "\<forall>y\<in>set ws. m \<le> y" by blast
  from indexOf_from_first [OF m(2), of 0] obtain k where
    k: "k < length ws" "indexOf_from (map Some ws) (Finite m) 0 = int k"
       "ws ! k = m" "\<forall>j<k. ws ! j \<noteq> m" by auto
  have a: "\<forall>j<length ws. ws ! k \<le> ws ! j" using m(3) k(3) by simp
  have "\<forall>j<k. ws ! k < ws ! j"
  proof (intro allI impI)
    fix j assume "j < k"
    then have "ws ! j \<noteq> m" "m \<le> ws ! j" using k(1,4) m(3) by auto
    then show "ws ! k < ws ! j" using k(3) by simp
  qed
  with a k m(1) show ?thesis unfolding us_indexOf_def by auto
qed

lemma recovery_guard_False: "\<not> recovery_guard u"
  by (cases u)
    (simp_all add: recovery_guard_def js_typeof_def loose_eq_string_number_def StringToNumber_def)

subsection \<open>The selection of one call\<close>

lemma select_ok:
  assumes ne: "cluster this \<noteq> []" and lo: "0 \<le> index this"
    and hi: "index this < int (length (cluster this))"
  shows "\<exists>s' i. scan (cluster this) (scan_init this) = Inr s' \<and> fallback s' = int i \<and>
      i < length (cluster this) \<and>
      (useIndex s' = None \<longrightarrow>
         poolWaiting s' = map (\<lambda>p. Some (pool_waitingClientsCount p)) (cluster this)) \<and>
      ((\<exists>k<length (cluster this).
           i = spec_visit (length (cluster this)) (nat (index this)) k \<and>
           useIndex s' = Some (int i) \<and>
           pool_waitingClientsCount (cluster this ! i) = 0 \<and>
           (\<forall>j<k. pool_waitingClientsCount
                    (cluster this ! spec_visit (length (cluster this)) (nat (index this)) j) \<noteq> 0) \<and>
           visited s' = map (spec_visit (length (cluster this)) (nat (index this))) [0..<Suc k])
       \<or> (useIndex s' = None \<and>
           (\<forall>j<length (cluster this). pool_waitingClientsCount (cluster this ! j) \<noteq> 0) \<and>
           visited s' = spec_scan_order (length (cluster this)) (nat (index this)) \<and>
           (\<forall>j<length (cluster this).
               pool_waitingClientsCount (cluster this ! i) \<le> pool_waitingClientsCount (cluster this ! j)) \<and>
           (\<forall>j<i. pool_waitingClientsCount (cluster this ! i) < pool_waitingClientsCount (cluster this ! j))))"
proof -
  let ?cl = "cluster this" and ?N = "length (cluster this)" and ?cur = "nat (index this)"
  have cur: "?cur < ?N" using lo hi by simp
  have N0: "0 < ?N" using ne by simp
  have t0: "tryIndex (scan_init this) = int (spec_visit ?N ?cur 0)"
    using lo cur by (simp add: scan_init_def spec_visit_def)
  have i0: "pw_inv ?cl (poolWaiting (scan_init this)) (visited (scan_init this))"
    by (simp add: scan_init_def pw_inv_def)
  from scan_run [OF refl cur, of 0 "scan_init this", OF _ _ t0 _ i0]
  obtain s' where s': "scan ?cl (scan_init this) = Inr s'"
    and inv: "pw_inv ?cl (poolWaiting s') (visited s')"
    and alt: "(\<exists>k. 0 \<le> k \<and> k < ?N \<and> pool_waitingClientsCount (?cl ! spec_visit ?N ?cur k) = 0 \<and>
             (\<forall>j. 0 \<le> j \<and> j < k \<longrightarrow> pool_waitingClientsCount (?cl ! spec_visit ?N ?cur j) \<noteq> 0) \<and>
             useIndex s' = Some (int (spec_visit ?N ?cur k)) \<and>
             visited s' = visited (scan_init this) @ map (spec_visit ?N ?cur) [0..<Suc k])
        \<or> ((\<forall>j. 0 \<le> j \<and> j < ?N \<longrightarrow> pool_waitingClientsCount (?cl ! spec_visit ?N ?cur j) \<noteq> 0) \<and>
            useIndex s' = None \<and>
            visited s' = visited (scan_init this) @ map (spec_visit ?N ?cur) [0..<?N])"
    by (auto simp: scan_init_def)
  from alt show ?thesis
  proof
    assume "\<exists>k. 0 \<le> k \<and> k < ?N \<and> pool_waitingClientsCount (?cl ! spec_visit ?N ?cur k) = 0 \<and>
             (\<forall>j. 0 \<le> j \<and> j < k \<longrightarrow> pool_waitingClientsCount (?cl ! spec_visit ?N ?cur j) \<noteq> 0) \<and>
             useIndex s' = Some (int (spec_visit ?N ?cur k)) \<and>
             visited s' = visited (scan_init this) @ map (spec_visit ?N ?cur) [0..<Suc k]"
    then obtain k where k: "k < ?N" "pool_waitingClientsCount (?cl ! spec_visit ?N ?cur k) = 0"
      "\<forall>j<k. pool_waitingClientsCount (?cl ! spec_visit ?N ?cur j) \<noteq> 0"
      "useIndex s' = Some (int (spec_visit ?N ?cur k))"
      "visited s' = map (spec_visit ?N ?cur) [0..<Suc k]"
      by (auto simp: scan_init_def)
    let ?i = "spec_visit ?N ?cur k"
    have fb: "fallback s' = int ?i" using k(4) by (simp add: fallback_def)
    have iN: "?i < ?N" using N0 by (rule spec_visit_less)
    have un: "useIndex s' = None \<longrightarrow>
         poolWaiting s' = map (\<lambda>p. Some (pool_waitingClientsCount p)) ?cl"
      using k(4) by simp
    have d: "\<exists>k<?N. ?i = spec_visit ?N ?cur k \<and> useIndex s' = Some (int ?i) \<and>
           pool_waitingClientsCount (?cl ! ?i) = 0 \<and>
           (\<forall>j<k. pool_waitingClientsCount (?cl ! spec_visit ?N ?cur j) \<noteq> 0) \<and>
           visited s' = map (spec_visit ?N ?cur) [0..<Suc k]"
      using k by (intro exI [of _ k]) simp
    show ?thesis using s' fb iN un d
      by (intro exI [of _ s'] exI [of _ ?i]) simp
  next
    assume h: "(\<forall>j. 0 \<le> j \<and> j < ?N \<longrightarrow> pool_waitingClientsCount (?cl ! spec_visit ?N ?cur j) \<noteq> 0) \<and>
            useIndex s' = None \<and>
            visited s' = visited (scan_init this) @ map (spec_visit ?N ?cur) [0..<?N]"
    then have vis: "visited s' = spec_scan_order ?N ?cur"
      by (simp add: scan_init_def spec_scan_order_def)
    have un: "useIndex s' = None" using h by simp
    have nz: "\<forall>j<?N. pool_waitingClientsCount (?cl ! j) \<noteq> 0"
    proof (intro allI impI)
      fix j assume "j < ?N"
      then obtain k where "k < ?N" "spec_visit ?N ?cur k = j"
        using spec_visit_surj [OF cur] by blast
      then show "pool_waitingClientsCount (?cl ! j) \<noteq> 0" using h by auto
    qed
    have "set (visited s') = {0..<?N}" using vis set_spec_scan_order [OF cur] by simp
    from pw_inv_full [OF inv this]
    have pw: "poolWaiting s' = map Some (map pool_waitingClientsCount ?cl)" by simp
    have "map pool_waitingClientsCount ?cl \<noteq> []" using ne by simp
    from fallback_least_loaded [OF this] obtain i where
      i: "i < ?N"
         "us_indexOf (map Some (map pool_waitingClientsCount ?cl))
            (us_min (map Some (map pool_waitingClientsCount ?cl))) = int i"
         "\<forall>j<?N. pool_waitingClientsCount (?cl ! i) \<le> pool_waitingClientsCount (?cl ! j)"
         "\<forall>j<i. pool_waitingClientsCount (?cl ! i) < pool_waitingClientsCount (?cl ! j)"
      by auto
    have fb: "fallback s' = int i" using un pw i(2) by (simp add: fallback_def)
    have pw': "poolWaiting s' = map (\<lambda>p. Some (pool_waitingClientsCount p)) ?cl"
      using pw by simp
    show ?thesis using s' fb pw' i(1,3,4) un nz vis
      by (intro exI [of _ s'] exI [of _ i]) simp
  qed
qed

lemma next_index_mod:
  "i < length (cluster this) \<Longrightarrow>
   next_index this (int i) = int (Suc i mod length (cluster this))"
  by (auto simp: next_index_def Let_def mod_Suc)

lemma acquire_selected:
  assumes "scan (cluster this) (scan_init this) = Inr s'" "fallback s' = int i"
    "i < length (cluster this)"
  shows "acquire pool_acquire this priority =
     (this\<lparr>index := int (Suc i mod length (cluster this)),
           cluster := (cluster this)[i := pool_acquire (cluster this ! i) None]\<rparr>,
      visited s', Delegate i None)"
  using assms
  by (auto simp: acquire_def Let_def recover_def recovery_guard_False next_index_mod js_index_def)

subsection \<open>First match in a list\<close>

lemma find_first_at:
  assumes "k < length xs" "P (xs ! k)" "\<forall>j<k. \<not> P (xs ! j)"
  shows "find P xs = Some (xs ! k)" and "takeWhile (\<lambda>x. \<not> P x) xs = take k xs"
proof -
  show "find P xs = Some (xs ! k)"
    unfolding find_Some_iff using assms by blast
  show "takeWhile (\<lambda>x. \<not> P x) xs = take k xs"
    using assms by (intro takeWhile_eq_take_P_nth) auto
qed

lemma spec_scan_order_nth:
  "k < N \<Longrightarrow> spec_scan_order N cur ! k = spec_visit N cur k"
  by (simp add: spec_scan_order_def)

lemma spec_scan_order_take:
  "k \<le> N \<Longrightarrow> take k (spec_scan_order N cur) = map (spec_visit N cur) [0..<k]"
  by (simp add: spec_scan_order_def take_map)

section \<open>Acquire on an empty cluster\<close>

text \<open>
  C4. On a cluster with no member, \<^verbatim>\<open>acquire\<close> calls the callback with the error
  "No servers added to cluster yet"; no waiting count is read, no member's acquire is
  called, and the cluster object (index and member list) is returned as it was.
\<close>

theorem acquire_empty_cluster:
  "cluster this = [] \<Longrightarrow>
     acquire pool_acquire this priority =
       (this, [], Callback ''No servers added to cluster yet'')"
  by (simp add: acquire_def)

theorem acquire_empty_cluster_witness:
  "cluster \<lparr>cluster = [], index = 0, factory = 0\<rparr> = [] \<and>
   acquire (\<lambda>p a. p) \<lparr>cluster = [], index = 0, factory = 0\<rparr> (Some 1) =
     (\<lparr>cluster = [], index = 0, factory = 0\<rparr>, [], Callback ''No servers added to cluster yet'')"
  using acquire_empty_cluster [of "\<lparr>cluster = [], index = 0, factory = 0\<rparr>" "\<lambda>p a. p" "Some 1"]
  by simp

section \<open>The circular scan\<close>

text \<open>
  C1. On a cluster with \<open>N \<ge> 1\<close> members and the index in range, \<^verbatim>\<open>acquire\<close> reads the
  waiting counts in the order \<open>(index + k) mod N\<close>, \<open>k = 0, 1, ...\<close>, stops at the first
  member whose count is 0 and delegates to it; if no member has count 0 it has read
  all \<open>N\<close> in that order. In particular, on three members that report waiting count 0
  before and after their own acquire, with the index at 0, four calls in a row delegate
  to members 0, 1, 2, 0.
\<close>

theorem acquire_circular_scan:
  "(cluster this \<noteq> [] \<and> 0 \<le> index this \<and> index this < int (length (cluster this)) \<longrightarrow>
     (case acquire pool_acquire this priority of
        (this', vs, out) \<Rightarrow>
          (case find (\<lambda>i. pool_waitingClientsCount (cluster this ! i) = 0)
                  (spec_scan_order (length (cluster this)) (nat (index this))) of
             Some i \<Rightarrow>
               out = Delegate i None \<and>
               vs = takeWhile (\<lambda>i. \<not> pool_waitingClientsCount (cluster this ! i) = 0)
                      (spec_scan_order (length (cluster this)) (nat (index this))) @ [i]
           | None \<Rightarrow> vs = spec_scan_order (length (cluster this)) (nat (index this))))) \<and>
   (pool_waitingClientsCount a = 0 \<and> pool_waitingClientsCount b = 0 \<and>
    pool_waitingClientsCount c = 0 \<and>
    (\<forall>q. pool_waitingClientsCount (pool_acquire a q) = 0) \<and>
    (\<forall>q. pool_waitingClientsCount (pool_acquire b q) = 0) \<and>
    (\<forall>q. pool_waitingClientsCount (pool_acquire c q) = 0) \<longrightarrow>
      acquire_seq pool_acquire \<lparr>cluster = [a, b, c], index = 0, factory = fac\<rparr> [p1, p2, p3, p4] =
        [Delegate 0 None, Delegate 1 None, Delegate 2 None, Delegate 0 None])"
proof (intro conjI impI)
  assume h: "cluster this \<noteq> [] \<and> 0 \<le> index this \<and> index this < int (length (cluster this))"
  let ?cl = "cluster this" and ?N = "length (cluster this)" and ?cur = "nat (index this)"
  let ?P = "\<lambda>i. pool_waitingClientsCount (?cl ! i) = 0"
  let ?ord = "spec_scan_order ?N ?cur"
  have len: "length ?ord = ?N" by (simp add: spec_scan_order_def)
  have cur: "?cur < ?N" using h by linarith
  from select_ok [of this] h obtain s' i where
    s': "scan ?cl (scan_init this) = Inr s'" "fallback s' = int i" "i < ?N"
    and alt: "(\<exists>k<?N. i = spec_visit ?N ?cur k \<and> useIndex s' = Some (int i) \<and>
           pool_waitingClientsCount (?cl ! i) = 0 \<and>
           (\<forall>j<k. pool_waitingClientsCount (?cl ! spec_visit ?N ?cur j) \<noteq> 0) \<and>
           visited s' = map (spec_visit ?N ?cur) [0..<Suc k])
       \<or> (useIndex s' = None \<and> (\<forall>j<?N. pool_waitingClientsCount (?cl ! j) \<noteq> 0) \<and>
           visited s' = ?ord \<and>
           (\<forall>j<?N. pool_waitingClientsCount (?cl ! i) \<le> pool_waitingClientsCount (?cl ! j)) \<and>
           (\<forall>j<i. pool_waitingClientsCount (?cl ! i) < pool_waitingClientsCount (?cl ! j)))"
    by blast
  note acq = acquire_selected [OF s', of pool_acquire priority]
  from alt show "case acquire pool_acquire this priority of
        (this', vs, out) \<Rightarrow>
          (case find ?P ?ord of
             Some i \<Rightarrow> out = Delegate i None \<and> vs = takeWhile (\<lambda>i. \<not> ?P i) ?ord @ [i]
           | None \<Rightarrow> vs = ?ord)"
  proof
    assume "\<exists>k<?N. i = spec_visit ?N ?cur k \<and> useIndex s' = Some (int i) \<and>
           pool_waitingClientsCount (?cl ! i) = 0 \<and>
           (\<forall>j<k. pool_waitingClientsCount (?cl ! spec_visit ?N ?cur j) \<noteq> 0) \<and>
           visited s' = map (spec_visit ?N ?cur) [0..<Suc k]"
    then obtain k where k: "k < ?N" "i = spec_visit ?N ?cur k" "?P i"
      "\<forall>j<k. \<not> ?P (spec_visit ?N ?cur j)"
      "visited s' = map (spec_visit ?N ?cur) [0..<Suc k]" by blast
    have a: "k < length ?ord" using k(1) len by simp
    have b: "?P (?ord ! k)" using k(1,2,3) by (simp add: spec_scan_order_nth)
    have c: "\<forall>j<k. \<not> ?P (?ord ! j)" using k(1,4) by (simp add: spec_scan_order_nth)
    have f: "find ?P ?ord = Some i"
      using find_first_at(1) [of k ?ord ?P, OF a b c] k(1,2) by (simp add: spec_scan_order_nth)
    have t: "takeWhile (\<lambda>i. \<not> ?P i) ?ord = map (spec_visit ?N ?cur) [0..<k]"
      using find_first_at(2) [of k ?ord ?P, OF a b c] k(1) by (simp add: spec_scan_order_take)
    show ?thesis using acq f t k(2,5) by simp
  next
    assume n: "useIndex s' = None \<and> (\<forall>j<?N. pool_waitingClientsCount (?cl ! j) \<noteq> 0) \<and>
           visited s' = ?ord \<and>
           (\<forall>j<?N. pool_waitingClientsCount (?cl ! i) \<le> pool_waitingClientsCount (?cl ! j)) \<and>
           (\<forall>j<i. pool_waitingClientsCount (?cl ! i) < pool_waitingClientsCount (?cl ! j))"
    have "\<not> (\<exists>x. x \<in> set ?ord \<and> ?P x)"
      using n set_spec_scan_order [OF cur] by auto
    then have "find ?P ?ord = None" unfolding find_None_iff .
    then show ?thesis using acq n by simp
  qed
next
  assume z: "pool_waitingClientsCount a = 0 \<and> pool_waitingClientsCount b = 0 \<and>
    pool_waitingClientsCount c = 0 \<and>
    (\<forall>q. pool_waitingClientsCount (pool_acquire a q) = 0) \<and>
    (\<forall>q. pool_waitingClientsCount (pool_acquire b q) = 0) \<and>
    (\<forall>q. pool_waitingClientsCount (pool_acquire c q) = 0)"
  have on_idle: "acquire pool_acquire \<lparr>cluster = cl, index = int i, factory = fac\<rparr> q =
      (\<lparr>cluster = cl[i := pool_acquire (cl ! i) None], index = int (Suc i mod length cl), factory = fac\<rparr>,
       [i], Delegate i None)"
    if "i < length cl" "pool_waitingClientsCount (cl ! i) = 0" for cl i q
  proof -
    let ?me = "\<lparr>cluster = cl, index = int i, factory = fac\<rparr>"
    have "scan cl (scan_init ?me) =
        Inr ((scan_init ?me)\<lparr>poolWaiting := js_assign (poolWaiting (scan_init ?me)) (nat (tryIndex (scan_init ?me))) 0,
                      checked := checked (scan_init ?me) + 1,
                      visited := visited (scan_init ?me) @ [nat (tryIndex (scan_init ?me))],
                      useIndex := Some (tryIndex (scan_init ?me))\<rparr>)"
      using that by (intro scan_found [where p = "cl ! i"]) (auto simp: scan_init_def js_index_def)
    from acquire_selected [of ?me _ i pool_acquire q, OF _ _ _] this that(1)
    show ?thesis by (simp add: scan_init_def fallback_def)
  qed
  show "acquire_seq pool_acquire \<lparr>cluster = [a, b, c], index = 0, factory = fac\<rparr> [p1, p2, p3, p4] =
        [Delegate 0 None, Delegate 1 None, Delegate 2 None, Delegate 0 None]"
    using z on_idle [of 0 "[a, b, c]" p1]
      on_idle [of 1 "[pool_acquire a None, b, c]" p2]
      on_idle [of 2 "[pool_acquire a None, pool_acquire b None, c]" p3]
      on_idle [of 0 "[pool_acquire a None, pool_acquire b None, pool_acquire c None]" p4]
    by simp
qed

theorem acquire_circular_scan_witness:
  "(cluster \<lparr>cluster = [\<lparr>pool_waitingClientsCount = 1, pool_getPoolSize = 4, pool_availableObjectsCount = 0\<rparr>,
                        \<lparr>pool_waitingClientsCount = 0, pool_getPoolSize = 2, pool_availableObjectsCount = 1\<rparr>,
                        \<lparr>pool_waitingClientsCount = 3, pool_getPoolSize = 4, pool_availableObjectsCount = 0\<rparr>],
             index = 2, factory = 0\<rparr> \<noteq> [] \<and>
    (0::int) \<le> 2 \<and> (2::int) < 3) \<and>
   snd (acquire (\<lambda>p q. p\<lparr>pool_getPoolSize := pool_getPoolSize p + 1\<rparr>)
         \<lparr>cluster = [\<lparr>pool_waitingClientsCount = 1, pool_getPoolSize = 4, pool_availableObjectsCount = 0\<rparr>,
                      \<lparr>pool_waitingClientsCount = 0, pool_getPoolSize = 2, pool_availableObjectsCount = 1\<rparr>,
                      \<lparr>pool_waitingClientsCount = 3, pool_getPoolSize = 4, pool_availableObjectsCount = 0\<rparr>],
           index = 2, factory = 0\<rparr> (Some 1)) = ([2, 0, 1], Delegate 1 None) \<and>
   acquire_seq (\<lambda>p q. p\<lparr>pool_getPoolSize := pool_getPoolSize p + 1\<rparr>)
     \<lparr>cluster = [\<lparr>pool_waitingClientsCount = 0, pool_getPoolSize = 0, pool_availableObjectsCount = 0\<rparr>,
                  \<lparr>pool_waitingClientsCount = 0, pool_getPoolSize = 0, pool_availableObjectsCount = 0\<rparr>,
                  \<lparr>pool_waitingClientsCount = 0, pool_getPoolSize = 0, pool_availableObjectsCount = 0\<rparr>],
       index = 0, factory = 0\<rparr> [None, None, Some 1, None] =
     [Delegate 0 None, Delegate 1 None, Delegate 2 None, Delegate 0 None]"
  using acquire_circular_scan
    [of "\<lparr>cluster = [\<lparr>pool_waitingClientsCount = 1, pool_getPoolSize = 4, pool_availableObjectsCount = 0\<rparr>,
                      \<lparr>pool_waitingClientsCount = 0, pool_getPoolSize = 2, pool_availableObjectsCount = 1\<rparr>,
                      \<lparr>pool_waitingClientsCount = 3, pool_getPoolSize = 4, pool_availableObjectsCount = 0\<rparr>],
           index = 2, factory = 0\<rparr>"
        "\<lambda>p q. p\<lparr>pool_getPoolSize := pool_getPoolSize p + 1\<rparr>" "Some 1"
        "\<lparr>pool_waitingClientsCount = 0, pool_getPoolSize = 0, pool_availableObjectsCount = 0\<rparr>"
        "\<lparr>pool_waitingClientsCount = 0, pool_getPoolSize = 0, pool_availableObjectsCount = 0\<rparr>"
        "\<lparr>pool_waitingClientsCount = 0, pool_getPoolSize = 0, pool_availableObjectsCount = 0\<rparr>"
        0 None None "Some 1" None]
  by (simp add: spec_scan_order_def spec_visit_def split: prod.splits)

section \<open>The fallback to the shortest queue\<close>

text \<open>
  C2. On a cluster with \<open>N \<ge> 1\<close> members, the index in range and no member with waiting
  count 0, \<^verbatim>\<open>acquire\<close> delegates to the member whose waiting count is the minimum over
  all \<open>N\<close>, the lowest index among those with the minimum; the choice is the same from
  every position of the index. In particular, with waiting counts 5, 2, 2 and the index
  at 0, it delegates to member 1.
\<close>

theorem acquire_least_loaded:
  "(cluster this \<noteq> [] \<and> 0 \<le> index this \<and> index this < int (length (cluster this)) \<and>
    (\<forall>j<length (cluster this). pool_waitingClientsCount (cluster this ! j) \<noteq> 0) \<longrightarrow>
      (\<exists>i<length (cluster this).
          snd (snd (acquire pool_acquire this priority)) = Delegate i None \<and>
          (\<forall>j<length (cluster this).
              pool_waitingClientsCount (cluster this ! i) \<le> pool_waitingClientsCount (cluster this ! j)) \<and>
          (\<forall>j<i. pool_waitingClientsCount (cluster this ! i) < pool_waitingClientsCount (cluster this ! j)) \<and>
          (\<forall>c. 0 \<le> c \<and> c < int (length (cluster this)) \<longrightarrow>
              snd (snd (acquire pool_acquire (this\<lparr>index := c\<rparr>) priority)) = Delegate i None))) \<and>
   (pool_waitingClientsCount a = 5 \<and> pool_waitingClientsCount b = 2 \<and>
    pool_waitingClientsCount c = 2 \<longrightarrow>
      snd (snd (acquire pool_acquire \<lparr>cluster = [a, b, c], index = 0, factory = fac\<rparr> priority)) =
        Delegate 1 None)"
proof -
  have least: "\<exists>i<length (cluster m).
          snd (snd (acquire pool_acquire m priority)) = Delegate i None \<and>
          (\<forall>j<length (cluster m).
              pool_waitingClientsCount (cluster m ! i) \<le> pool_waitingClientsCount (cluster m ! j)) \<and>
          (\<forall>j<i. pool_waitingClientsCount (cluster m ! i) < pool_waitingClientsCount (cluster m ! j))"
    if ne: "cluster m \<noteq> []" and lo: "0 \<le> index m" and hi: "index m < int (length (cluster m))"
      and nz: "\<forall>j<length (cluster m). pool_waitingClientsCount (cluster m ! j) \<noteq> 0" for m
  proof -
    from select_ok [OF ne lo hi] obtain s' i where
      s': "scan (cluster m) (scan_init m) = Inr s'" "fallback s' = int i" "i < length (cluster m)"
      and alt: "(\<exists>k<length (cluster m).
           i = spec_visit (length (cluster m)) (nat (index m)) k \<and>
           useIndex s' = Some (int i) \<and>
           pool_waitingClientsCount (cluster m ! i) = 0 \<and>
           (\<forall>j<k. pool_waitingClientsCount
                    (cluster m ! spec_visit (length (cluster m)) (nat (index m)) j) \<noteq> 0) \<and>
           visited s' = map (spec_visit (length (cluster m)) (nat (index m))) [0..<Suc k])
       \<or> (useIndex s' = None \<and>
           (\<forall>j<length (cluster m). pool_waitingClientsCount (cluster m ! j) \<noteq> 0) \<and>
           visited s' = spec_scan_order (length (cluster m)) (nat (index m)) \<and>
           (\<forall>j<length (cluster m).
               pool_waitingClientsCount (cluster m ! i) \<le> pool_waitingClientsCount (cluster m ! j)) \<and>
           (\<forall>j<i. pool_waitingClientsCount (cluster m ! i) < pool_waitingClientsCount (cluster m ! j)))"
      by blast
    have "pool_waitingClientsCount (cluster m ! i) \<noteq> 0" using nz s'(3) by simp
    with alt have
      "(\<forall>j<length (cluster m).
               pool_waitingClientsCount (cluster m ! i) \<le> pool_waitingClientsCount (cluster m ! j)) \<and>
       (\<forall>j<i. pool_waitingClientsCount (cluster m ! i) < pool_waitingClientsCount (cluster m ! j))"
      by blast
    moreover have "snd (snd (acquire pool_acquire m priority)) = Delegate i None"
      using acquire_selected [OF s', of pool_acquire priority] by simp
    ultimately show ?thesis using s'(3) by blast
  qed
  have uniq: "i = i'"
    if "i < length cl" "i' < length cl"
      "\<forall>j<length cl. pool_waitingClientsCount (cl ! i) \<le> pool_waitingClientsCount (cl ! j)"
      "\<forall>j<i. pool_waitingClientsCount (cl ! i) < pool_waitingClientsCount (cl ! j)"
      "\<forall>j<length cl. pool_waitingClientsCount (cl ! i') \<le> pool_waitingClientsCount (cl ! j)"
      "\<forall>j<i'. pool_waitingClientsCount (cl ! i') < pool_waitingClientsCount (cl ! j)"
    for i i' and cl :: "pool list"
  proof (rule ccontr)
    assume "i \<noteq> i'"
    then consider "i < i'" | "i' < i" by linarith
    then show False
    proof cases
      case 1
      then have "pool_waitingClientsCount (cl ! i') < pool_waitingClientsCount (cl ! i)"
        using that(6) by simp
      moreover have "pool_waitingClientsCount (cl ! i) \<le> pool_waitingClientsCount (cl ! i')"
        using that(2,3) by simp
      ultimately show False by simp
    next
      case 2
      then have "pool_waitingClientsCount (cl ! i) < pool_waitingClientsCount (cl ! i')"
        using that(4) by simp
      moreover have "pool_waitingClientsCount (cl ! i') \<le> pool_waitingClientsCount (cl ! i)"
        using that(1,5) by simp
      ultimately show False by simp
    qed
  qed
  show ?thesis
  proof (intro conjI impI)
    assume h: "cluster this \<noteq> [] \<and> 0 \<le> index this \<and> index this < int (length (cluster this)) \<and>
      (\<forall>j<length (cluster this). pool_waitingClientsCount (cluster this ! j) \<noteq> 0)"
    from least [of this] h obtain i where i: "i < length (cluster this)"
      "snd (snd (acquire pool_acquire this priority)) = Delegate i None"
      "\<forall>j<length (cluster this).
          pool_waitingClientsCount (cluster this ! i) \<le> pool_waitingClientsCount (cluster this ! j)"
      "\<forall>j<i. pool_waitingClientsCount (cluster this ! i) < pool_waitingClientsCount (cluster this ! j)"
      by blast
    have "snd (snd (acquire pool_acquire (this\<lparr>index := c\<rparr>) priority)) = Delegate i None"
      if c: "0 \<le> c \<and> c < int (length (cluster this))" for c
    proof -
      from least [of "this\<lparr>index := c\<rparr>"] h c obtain i' where i': "i' < length (cluster this)"
        "snd (snd (acquire pool_acquire (this\<lparr>index := c\<rparr>) priority)) = Delegate i' None"
        "\<forall>j<length (cluster this).
            pool_waitingClientsCount (cluster this ! i') \<le> pool_waitingClientsCount (cluster this ! j)"
        "\<forall>j<i'. pool_waitingClientsCount (cluster this ! i') < pool_waitingClientsCount (cluster this ! j)"
        by auto
      have "i = i'" using uniq [OF i(1) i'(1) i(3,4) i'(3,4)] .
      then show ?thesis using i'(2) by simp
    qed
    with i show "\<exists>i<length (cluster this).
          snd (snd (acquire pool_acquire this priority)) = Delegate i None \<and>
          (\<forall>j<length (cluster this).
              pool_waitingClientsCount (cluster this ! i) \<le> pool_waitingClientsCount (cluster this ! j)) \<and>
          (\<forall>j<i. pool_waitingClientsCount (cluster this ! i) < pool_waitingClientsCount (cluster this ! j)) \<and>
          (\<forall>c. 0 \<le> c \<and> c < int (length (cluster this)) \<longrightarrow>
              snd (snd (acquire pool_acquire (this\<lparr>index := c\<rparr>) priority)) = Delegate i None)"
      by blast
  next
    assume w: "pool_waitingClientsCount a = 5 \<and> pool_waitingClientsCount b = 2 \<and>
      pool_waitingClientsCount c = 2"
    let ?m = "\<lparr>cluster = [a, b, c], index = 0, factory = fac\<rparr>"
    have nz: "\<forall>j<length (cluster ?m). pool_waitingClientsCount (cluster ?m ! j) \<noteq> 0"
      using w by (auto simp: less_Suc_eq numeral_3_eq_3)
    from least [of ?m, OF _ _ _ nz] obtain i where i: "i < 3"
      "snd (snd (acquire pool_acquire ?m priority)) = Delegate i None"
      "\<forall>j<3. pool_waitingClientsCount ([a, b, c] ! i) \<le> pool_waitingClientsCount ([a, b, c] ! j)"
      "\<forall>j<i. pool_waitingClientsCount ([a, b, c] ! i) < pool_waitingClientsCount ([a, b, c] ! j)"
      by auto
    from i(1) consider "i = 0" | "i = 1" | "i = 2" by linarith
    then have "i = 1"
    proof cases
      case 1
      then show ?thesis using i(3) w by (auto dest: spec [of _ 1])
    next
      case 2
      then show ?thesis .
    next
      case 3
      then show ?thesis using i(4) w by (auto dest: spec [of _ 1])
    qed
    with i(2) show "snd (snd (acquire pool_acquire ?m priority)) = Delegate 1 None" by simp
  qed
qed

theorem acquire_least_loaded_witness:
  "(cluster \<lparr>cluster = [\<lparr>pool_waitingClientsCount = 4, pool_getPoolSize = 4, pool_availableObjectsCount = 0\<rparr>,
                        \<lparr>pool_waitingClientsCount = 1, pool_getPoolSize = 4, pool_availableObjectsCount = 0\<rparr>,
                        \<lparr>pool_waitingClientsCount = 1, pool_getPoolSize = 4, pool_availableObjectsCount = 0\<rparr>],
             index = 2, factory = 0\<rparr> \<noteq> [] \<and>
    (0::int) \<le> 2 \<and> (2::int) < 3) \<and>
   snd (snd (acquire (\<lambda>p q. p)
         \<lparr>cluster = [\<lparr>pool_waitingClientsCount = 4, pool_getPoolSize = 4, pool_availableObjectsCount = 0\<rparr>,
                      \<lparr>pool_waitingClientsCount = 1, pool_getPoolSize = 4, pool_availableObjectsCount = 0\<rparr>,
                      \<lparr>pool_waitingClientsCount = 1, pool_getPoolSize = 4, pool_availableObjectsCount = 0\<rparr>],
           index = 2, factory = 0\<rparr> (Some 1))) = Delegate 1 None \<and>
   snd (snd (acquire (\<lambda>p q. p)
         \<lparr>cluster = [\<lparr>pool_waitingClientsCount = 5, pool_getPoolSize = 4, pool_availableObjectsCount = 0\<rparr>,
                      \<lparr>pool_waitingClientsCount = 2, pool_getPoolSize = 4, pool_availableObjectsCount = 0\<rparr>,
                      \<lparr>pool_waitingClientsCount = 2, pool_getPoolSize = 4, pool_availableObjectsCount = 0\<rparr>],
           index = 0, factory = 0\<rparr> (Some 1))) = Delegate 1 None"
proof -
  let ?cl = "[\<lparr>pool_waitingClientsCount = 4, pool_getPoolSize = 4, pool_availableObjectsCount = 0\<rparr>,
              \<lparr>pool_waitingClientsCount = 1, pool_getPoolSize = 4, pool_availableObjectsCount = 0\<rparr>,
              \<lparr>pool_waitingClientsCount = 1, pool_getPoolSize = 4, pool_availableObjectsCount = 0\<rparr>]"
  let ?m = "\<lparr>cluster = ?cl, index = 2, factory = 0\<rparr>"
  let ?a = "\<lparr>pool_waitingClientsCount = 5, pool_getPoolSize = 4, pool_availableObjectsCount = 0\<rparr>"
  let ?b = "\<lparr>pool_waitingClientsCount = 2, pool_getPoolSize = 4, pool_availableObjectsCount = 0\<rparr>"
  note t = acquire_least_loaded [of ?m "\<lambda>p q. p" "Some 1" ?a ?b ?b 0]
  have nz: "\<forall>j<length (cluster ?m). pool_waitingClientsCount (cluster ?m ! j) \<noteq> 0"
    by (auto simp: less_Suc_eq numeral_3_eq_3)
  from t nz obtain i where i: "i < 3"
    "snd (snd (acquire (\<lambda>p q. p) ?m (Some 1))) = Delegate i None"
    "\<forall>j<3. pool_waitingClientsCount (?cl ! i) \<le> pool_waitingClientsCount (?cl ! j)"
    "\<forall>j<i. pool_waitingClientsCount (?cl ! i) < pool_waitingClientsCount (?cl ! j)"
    by auto
  from i(1) consider "i = 0" | "i = 1" | "i = 2" by linarith
  then have "i = 1"
  proof cases
    case 1
    then show ?thesis using i(3) by (auto dest: spec [of _ 1])
  next
    case 2
    then show ?thesis .
  next
    case 3
    then show ?thesis using i(4) by (auto dest: spec [of _ 1])
  qed
  with i(2) t show ?thesis by simp
qed

section \<open>The index after a call\<close>

text \<open>
  C3. On a cluster with \<open>N \<ge> 1\<close> members and the index in range, an \<^verbatim>\<open>acquire\<close> that
  delegates to member \<open>i\<close> leaves the index at \<open>(i + 1) mod N\<close>.
\<close>

theorem acquire_advances_index:
  assumes "cluster this \<noteq> []" and "0 \<le> index this"
    and "index this < int (length (cluster this))"
  shows "\<exists>i<length (cluster this).
           snd (snd (acquire pool_acquire this priority)) = Delegate i None \<and>
           index (fst (acquire pool_acquire this priority)) =
             int ((i + 1) mod length (cluster this))"
proof -
  from select_ok [OF assms] obtain s' i where
    s': "scan (cluster this) (scan_init this) = Inr s'" "fallback s' = int i"
        "i < length (cluster this)"
    by blast
  from acquire_selected [OF s', of pool_acquire priority] s'(3) show ?thesis
    by (intro exI [of _ i]) simp
qed

theorem acquire_advances_index_witness:
  "(cluster \<lparr>cluster = [\<lparr>pool_waitingClientsCount = 1, pool_getPoolSize = 4, pool_availableObjectsCount = 0\<rparr>,
                        \<lparr>pool_waitingClientsCount = 0, pool_getPoolSize = 2, pool_availableObjectsCount = 1\<rparr>,
                        \<lparr>pool_waitingClientsCount = 0, pool_getPoolSize = 4, pool_availableObjectsCount = 0\<rparr>],
             index = 2, factory = 0\<rparr> \<noteq> [] \<and>
    (0::int) \<le> 2 \<and> (2::int) < 3) \<and>
   (\<exists>i<3. snd (snd (acquire (\<lambda>p q. p)
         \<lparr>cluster = [\<lparr>pool_waitingClientsCount = 1, pool_getPoolSize = 4, pool_availableObjectsCount = 0\<rparr>,
                      \<lparr>pool_waitingClientsCount = 0, pool_getPoolSize = 2, pool_availableObjectsCount = 1\<rparr>,
                      \<lparr>pool_waitingClientsCount = 0, pool_getPoolSize = 4, pool_availableObjectsCount = 0\<rparr>],
           index = 2, factory = 0\<rparr> None)) = Delegate i None \<and>
      index (fst (acquire (\<lambda>p q. p)
         \<lparr>cluster = [\<lparr>pool_waitingClientsCount = 1, pool_getPoolSize = 4, pool_availableObjectsCount = 0\<rparr>,
                      \<lparr>pool_waitingClientsCount = 0, pool_getPoolSize = 2, pool_availableObjectsCount = 1\<rparr>,
                      \<lparr>pool_waitingClientsCount = 0, pool_getPoolSize = 4, pool_availableObjectsCount = 0\<rparr>],
           index = 2, factory = 0\<rparr> None)) = int ((i + 1) mod 3))"
proof -
  let ?m = "\<lparr>cluster = [\<lparr>pool_waitingClientsCount = 1, pool_getPoolSize = 4, pool_availableObjectsCount = 0\<rparr>,
                      \<lparr>pool_waitingClientsCount = 0, pool_getPoolSize = 2, pool_availableObjectsCount = 1\<rparr>,
                      \<lparr>pool_waitingClientsCount = 0, pool_getPoolSize = 4, pool_availableObjectsCount = 0\<rparr>],
           index = 2, factory = 0\<rparr>"
  have h: "cluster ?m \<noteq> []" "0 \<le> index ?m" "index ?m < int (length (cluster ?m))"
    by simp_all
  from acquire_advances_index [OF h, of "\<lambda>p q. p" None] obtain i where
    i: "i < length (cluster ?m)" "snd (snd (acquire (\<lambda>p q. p) ?m None)) = Delegate i None"
       "index (fst (acquire (\<lambda>p q. p) ?m None)) = int ((i + 1) mod length (cluster ?m))"
    by blast
  have "i < 3" "length (cluster ?m) = 3" using i(1) by simp_all
  with i(2,3) have "\<exists>i<3. snd (snd (acquire (\<lambda>p q. p) ?m None)) = Delegate i None \<and>
      index (fst (acquire (\<lambda>p q. p) ?m None)) = int ((i + 1) mod 3)"
    by metis
  then show ?thesis by simp
qed

section \<open>The chosen index is in range\<close>

text \<open>
  C9. On a cluster with \<open>N \<ge> 1\<close> members and the index in range, the loop ends without
  an exception, the array \<^verbatim>\<open>poolWaiting\<close> holds the waiting count of every member
  whenever the fallback is taken, the index chosen by the loop or by the fallback is a
  number \<open>i\<close> with \<open>0 \<le> i < N\<close>, so \<^verbatim>\<open>this.cluster[useIndex]\<close> is member \<open>i\<close> and the
  call delegates to it; the guard \<^verbatim>\<open>typeof useIndex == -1\<close> is false for that value and
  for \<^verbatim>\<open>undefined\<close>, so the reset of \<^verbatim>\<open>useIndex\<close> never runs.
\<close>

theorem acquire_index_in_bounds:
  assumes "cluster this \<noteq> []" and "0 \<le> index this"
    and "index this < int (length (cluster this))"
  shows "\<exists>s' i. scan (cluster this) (scan_init this) = Inr s' \<and>
           (useIndex s' = None \<longrightarrow>
              poolWaiting s' = map (\<lambda>p. Some (pool_waitingClientsCount p)) (cluster this)) \<and>
           fallback s' = int i \<and> i < length (cluster this) \<and>
           \<not> recovery_guard (Some (fallback s')) \<and> \<not> recovery_guard None \<and>
           recover this (fallback s') = fallback s' \<and>
           js_index (cluster this) (recover this (fallback s')) = Some (cluster this ! i) \<and>
           snd (snd (acquire pool_acquire this priority)) = Delegate i None"
proof -
  from select_ok [OF assms] obtain s' i where
    s': "scan (cluster this) (scan_init this) = Inr s'" "fallback s' = int i"
        "i < length (cluster this)"
    and pw: "useIndex s' = None \<longrightarrow>
              poolWaiting s' = map (\<lambda>p. Some (pool_waitingClientsCount p)) (cluster this)"
    by auto
  have r: "recover this (fallback s') = fallback s'"
    by (simp add: recover_def recovery_guard_False)
  have j: "js_index (cluster this) (recover this (fallback s')) = Some (cluster this ! i)"
    using r s'(2,3) by (simp add: js_index_def)
  have d: "snd (snd (acquire pool_acquire this priority)) = Delegate i None"
    using acquire_selected [OF s', of pool_acquire priority] by simp
  show ?thesis using s' pw r j d recovery_guard_False
    by (intro exI [of _ s'] exI [of _ i]) simp
qed

theorem acquire_index_in_bounds_witness:
  "(cluster \<lparr>cluster = [\<lparr>pool_waitingClientsCount = 2, pool_getPoolSize = 4, pool_availableObjectsCount = 0\<rparr>,
                        \<lparr>pool_waitingClientsCount = 1, pool_getPoolSize = 4, pool_availableObjectsCount = 0\<rparr>],
             index = 1, factory = 0\<rparr> \<noteq> [] \<and>
    (0::int) \<le> 1 \<and> (1::int) < 2) \<and>
   (\<exists>i<2. snd (snd (acquire (\<lambda>p q. p)
         \<lparr>cluster = [\<lparr>pool_waitingClientsCount = 2, pool_getPoolSize = 4, pool_availableObjectsCount = 0\<rparr>,
                      \<lparr>pool_waitingClientsCount = 1, pool_getPoolSize = 4, pool_availableObjectsCount = 0\<rparr>],
           index = 1, factory = 0\<rparr> None)) = Delegate i None)"
proof -
  let ?m = "\<lparr>cluster = [\<lparr>pool_waitingClientsCount = 2, pool_getPoolSize = 4, pool_availableObjectsCount = 0\<rparr>,
                      \<lparr>pool_waitingClientsCount = 1, pool_getPoolSize = 4, pool_availableObjectsCount = 0\<rparr>],
           index = 1, factory = 0\<rparr>"
  have h: "cluster ?m \<noteq> []" "0 \<le> index ?m" "index ?m < int (length (cluster ?m))"
    by simp_all
  from acquire_index_in_bounds [OF h, of "\<lambda>p q. p" None] obtain i where
    i: "i < length (cluster ?m)" "snd (snd (acquire (\<lambda>p q. p) ?m None)) = Delegate i None"
    by blast
  have "i < 2" using i(1) by simp
  with i(2) have "\<exists>i<2. snd (snd (acquire (\<lambda>p q. p) ?m None)) = Delegate i None"
    by blast
  then show ?thesis by simp
qed

section \<open>The priority argument\<close>

text \<open>
  C5. The documentation of \<^verbatim>\<open>acquire\<close> says that the \<^verbatim>\<open>priority\<close> argument gives the
  priority of the caller. The method never reads it: every call behaves as the call
  without a priority does, and the member's own acquire is invoked with the callback
  alone. On one idle member, \<^verbatim>\<open>acquire(callback, 1)\<close> delegates to member 0 with no
  priority argument.
\<close>

theorem acquire_drops_priority:
  "acquire pool_acquire this priority = acquire pool_acquire this None \<and>
   snd (snd (acquire (\<lambda>p q. p)
     \<lparr>cluster = [\<lparr>pool_waitingClientsCount = 0, pool_getPoolSize = 0, pool_availableObjectsCount = 0\<rparr>],
       index = 0, factory = 0\<rparr> (Some 1))) = Delegate 0 None \<and>
   snd (snd (acquire (\<lambda>p q. p)
     \<lparr>cluster = [\<lparr>pool_waitingClientsCount = 0, pool_getPoolSize = 0, pool_availableObjectsCount = 0\<rparr>],
       index = 0, factory = 0\<rparr> (Some 1))) \<noteq> Delegate 0 (Some 1)"
proof -
  let ?p = "\<lparr>pool_waitingClientsCount = 0, pool_getPoolSize = 0, pool_availableObjectsCount = 0\<rparr>"
  let ?m = "\<lparr>cluster = [?p], index = 0, factory = 0\<rparr>"
  have g: "acquire pool_acquire this priority = acquire pool_acquire this None"
    by (simp add: acquire_def)
  have "scan (cluster ?m) (scan_init ?m) =
      Inr ((scan_init ?m)\<lparr>poolWaiting := js_assign (poolWaiting (scan_init ?m)) (nat (tryIndex (scan_init ?m))) 0,
                      checked := checked (scan_init ?m) + 1,
                      visited := visited (scan_init ?m) @ [nat (tryIndex (scan_init ?m))],
                      useIndex := Some (tryIndex (scan_init ?m))\<rparr>)"
    by (intro scan_found [where p = ?p]) (simp_all add: scan_init_def js_index_def)
  from acquire_selected [of ?m _ 0 "\<lambda>p q. p" "Some 1", OF this]
  have "snd (snd (acquire (\<lambda>p q. p) ?m (Some 1))) = Delegate 0 None"
    by (simp add: scan_init_def fallback_def)
  with g show ?thesis by simp
qed

section \<open>The statistics\<close>

lemma foldl_add_sum_list:
  "foldl (\<lambda>count p. count + f p) a xs = a + sum_list (map f xs)" for a :: nat
  by (induction xs arbitrary: a) simp_all

text \<open>
  C7. \<^verbatim>\<open>getClusterSize\<close> is the number of members, and \<^verbatim>\<open>getPoolSize\<close>,
  \<^verbatim>\<open>availableObjectsCount\<close> and \<^verbatim>\<open>waitingClientsCount\<close> are the sums, over the members
  the cluster holds when they are called, of what each member reports for itself.
\<close>

theorem statistics_are_sums:
  "getClusterSize this = length (cluster this) \<and>
   getPoolSize this = sum_list (map pool_getPoolSize (cluster this)) \<and>
   availableObjectsCount this = sum_list (map pool_availableObjectsCount (cluster this)) \<and>
   waitingClientsCount this = sum_list (map pool_waitingClientsCount (cluster this))"
  by (simp add: getClusterSize_def getPoolSize_def availableObjectsCount_def
      waitingClientsCount_def foldl_add_sum_list)

section \<open>The index stays in range\<close>

lemma add_index: "index (snd (add Pool create_fn (h, this))) = index this"
  by (simp add: add_def split: prod.splits)

lemma add_cluster:
  "\<exists>p. cluster (snd (add Pool create_fn (h, this))) = cluster this @ [p]"
  by (simp add: add_def split: prod.splits)

lemma index_ok_in_range:
  "index_ok this \<Longrightarrow> cluster this \<noteq> [] \<Longrightarrow>
   0 \<le> index this \<and> index this < int (length (cluster this))"
  by (auto simp: index_ok_def)

lemma acquire_keeps_range:
  assumes "cluster this \<noteq> []" "0 \<le> index this" "index this < int (length (cluster this))"
  shows "0 \<le> index (fst (acquire pool_acquire this priority)) \<and>
         index (fst (acquire pool_acquire this priority)) < int (length (cluster this)) \<and>
         length (cluster (fst (acquire pool_acquire this priority))) = length (cluster this)"
proof -
  from select_ok [OF assms] obtain s' i where
    s': "scan (cluster this) (scan_init this) = Inr s'" "fallback s' = int i"
        "i < length (cluster this)"
    by blast
  have "Suc i mod length (cluster this) < length (cluster this)"
    using assms(1) by simp
  with acquire_selected [OF s', of pool_acquire priority] show ?thesis by simp
qed

lemma index_ok_add: "index_ok (snd hm) \<Longrightarrow> index_ok (snd (add Pool create_fn hm))"
proof -
  assume a: "index_ok (snd hm)"
  obtain h this where hm: "hm = (h, this)" by (cases hm)
  from add_cluster [of Pool create_fn h this] obtain p where
    "cluster (snd (add Pool create_fn (h, this))) = cluster this @ [p]" by blast
  with a add_index [of Pool create_fn h this] show ?thesis
    unfolding hm by (auto simp: index_ok_def)
qed

lemma index_ok_acquire:
  "index_ok this \<Longrightarrow> index_ok (fst (acquire pool_acquire this priority))"
proof (cases "cluster this = []")
  case True
  assume "index_ok this"
  with True show ?thesis by (simp add: acquire_def)
next
  case False
  assume a: "index_ok this"
  from index_ok_in_range [OF a False] have "0 \<le> index this" "index this < int (length (cluster this))"
    by simp_all
  from acquire_keeps_range [OF False this, of pool_acquire priority] show ?thesis
    by (simp add: index_ok_def)
qed

lemma index_ok_run:
  "index_ok (snd hm) \<Longrightarrow> index_ok (snd (run Pool pool_acquire ops hm))"
  unfolding run_def
proof (induction ops arbitrary: hm)
  case Nil
  then show ?case by simp
next
  case (Cons x ops)
  have "index_ok (snd (apply_operation Pool pool_acquire hm x))"
    using Cons.prems by (cases x) (simp_all add: index_ok_add index_ok_acquire)
  from Cons.IH [OF this] show ?case by simp
qed

text \<open>
  C6. From a new cluster (no member, index 0), after any sequence of \<^verbatim>\<open>add\<close> and
  \<^verbatim>\<open>acquire\<close> calls the index satisfies \<open>0 \<le> index < N\<close> whenever there is a member.
  \<^verbatim>\<open>add\<close> appends one member and leaves the index as it is; \<^verbatim>\<open>acquire\<close> on \<open>N \<ge> 1\<close>
  members with the index in range stores an index in \<open>[0, N)\<close> and keeps \<open>N\<close>.
\<close>

theorem index_invariant:
  "(cluster (snd (run Pool pool_acquire ops (h, new_me fac))) \<noteq> [] \<longrightarrow>
      0 \<le> index (snd (run Pool pool_acquire ops (h, new_me fac))) \<and>
      index (snd (run Pool pool_acquire ops (h, new_me fac))) <
        int (length (cluster (snd (run Pool pool_acquire ops (h, new_me fac)))))) \<and>
   index (snd (add Pool create_fn (h', this))) = index this \<and>
   (\<exists>p. cluster (snd (add Pool create_fn (h', this))) = cluster this @ [p]) \<and>
   (cluster this \<noteq> [] \<and> 0 \<le> index this \<and> index this < int (length (cluster this)) \<longrightarrow>
      0 \<le> index (fst (acquire pool_acquire this priority)) \<and>
      index (fst (acquire pool_acquire this priority)) < int (length (cluster this)) \<and>
      length (cluster (fst (acquire pool_acquire this priority))) = length (cluster this))"
proof -
  have "index_ok (snd (h, new_me fac))" by (simp add: index_ok_def new_me_def)
  from index_ok_run [OF this, of Pool pool_acquire ops]
  have a: "cluster (snd (run Pool pool_acquire ops (h, new_me fac))) \<noteq> [] \<longrightarrow>
      0 \<le> index (snd (run Pool pool_acquire ops (h, new_me fac))) \<and>
      index (snd (run Pool pool_acquire ops (h, new_me fac))) <
        int (length (cluster (snd (run Pool pool_acquire ops (h, new_me fac)))))"
    using index_ok_in_range by blast
  show ?thesis
    using a add_index [of Pool create_fn h' this] add_cluster [of Pool create_fn h' this]
      acquire_keeps_range [of this pool_acquire priority]
    by blast
qed

theorem index_invariant_witness:
  "cluster (snd (run (\<lambda>ob. (ob, \<lparr>pool_waitingClientsCount = 0, pool_getPoolSize = 0, pool_availableObjectsCount = 0\<rparr>))
                 (\<lambda>p q. p\<lparr>pool_waitingClientsCount := pool_waitingClientsCount p + 1\<rparr>)
                 [Acquire None, Add (Fun 1), Add (Fun 2), Acquire (Some 1), Acquire None, Acquire None]
                 ([[(''max'', Num 4)]], new_me 0))) \<noteq> [] \<and>
   0 \<le> index (snd (run (\<lambda>ob. (ob, \<lparr>pool_waitingClientsCount = 0, pool_getPoolSize = 0, pool_availableObjectsCount = 0\<rparr>))
                 (\<lambda>p q. p\<lparr>pool_waitingClientsCount := pool_waitingClientsCount p + 1\<rparr>)
                 [Acquire None, Add (Fun 1), Add (Fun 2), Acquire (Some 1), Acquire None, Acquire None]
                 ([[(''max'', Num 4)]], new_me 0))) \<and>
   index (snd (run (\<lambda>ob. (ob, \<lparr>pool_waitingClientsCount = 0, pool_getPoolSize = 0, pool_availableObjectsCount = 0\<rparr>))
                 (\<lambda>p q. p\<lparr>pool_waitingClientsCount := pool_waitingClientsCount p + 1\<rparr>)
                 [Acquire None, Add (Fun 1), Add (Fun 2), Acquire (Some 1), Acquire None, Acquire None]
                 ([[(''max'', Num 4)]], new_me 0))) <
     int (length (cluster (snd (run (\<lambda>ob. (ob, \<lparr>pool_waitingClientsCount = 0, pool_getPoolSize = 0, pool_availableObjectsCount = 0\<rparr>))
                 (\<lambda>p q. p\<lparr>pool_waitingClientsCount := pool_waitingClientsCount p + 1\<rparr>)
                 [Acquire None, Add (Fun 1), Add (Fun 2), Acquire (Some 1), Acquire None, Acquire None]
                 ([[(''max'', Num 4)]], new_me 0))))) \<and>
   (cluster \<lparr>cluster = [\<lparr>pool_waitingClientsCount = 2, pool_getPoolSize = 4, pool_availableObjectsCount = 0\<rparr>,
                        \<lparr>pool_waitingClientsCount = 1, pool_getPoolSize = 4, pool_availableObjectsCount = 0\<rparr>],
             index = 1, factory = 0\<rparr> \<noteq> [] \<and> (0::int) \<le> 1 \<and> (1::int) < 2) \<and>
   0 \<le> index (fst (acquire (\<lambda>p q. p\<lparr>pool_waitingClientsCount := pool_waitingClientsCount p + 1\<rparr>)
           \<lparr>cluster = [\<lparr>pool_waitingClientsCount = 2, pool_getPoolSize = 4, pool_availableObjectsCount = 0\<rparr>,
                        \<lparr>pool_waitingClientsCount = 1, pool_getPoolSize = 4, pool_availableObjectsCount = 0\<rparr>],
             index = 1, factory = 0\<rparr> None)) \<and>
   index (fst (acquire (\<lambda>p q. p\<lparr>pool_waitingClientsCount := pool_waitingClientsCount p + 1\<rparr>)
           \<lparr>cluster = [\<lparr>pool_waitingClientsCount = 2, pool_getPoolSize = 4, pool_availableObjectsCount = 0\<rparr>,
                        \<lparr>pool_waitingClientsCount = 1, pool_getPoolSize = 4, pool_availableObjectsCount = 0\<rparr>],
             index = 1, factory = 0\<rparr> None)) < 2"
proof -
  let ?Pool = "\<lambda>ob :: obj. (ob, \<lparr>pool_waitingClientsCount = 0, pool_getPoolSize = 0, pool_availableObjectsCount = 0\<rparr>)"
  let ?pa = "\<lambda>(p :: pool) (q :: int option). p\<lparr>pool_waitingClientsCount := pool_waitingClientsCount p + 1\<rparr>"
  let ?ops = "[Acquire None, Add (Fun 1), Add (Fun 2), Acquire (Some 1), Acquire None, Acquire None]"
  let ?h = "[[(''max'', Num 4)]]"
  let ?m = "\<lparr>cluster = [\<lparr>pool_waitingClientsCount = 2, pool_getPoolSize = 4, pool_availableObjectsCount = 0\<rparr>,
                        \<lparr>pool_waitingClientsCount = 1, pool_getPoolSize = 4, pool_availableObjectsCount = 0\<rparr>],
             index = 1, factory = 0\<rparr>"
  have ne: "cluster (snd (run ?Pool ?pa ?ops (?h, new_me 0))) \<noteq> []"
    by code_simp
  have hm: "cluster ?m \<noteq> [] \<and> 0 \<le> index ?m \<and> index ?m < int (length (cluster ?m))"
    by simp
  from index_invariant [of ?Pool ?pa ?ops ?h 0 "Fun 1" ?h ?m None] ne hm
  show ?thesis by simp
qed

section \<open>Several clusters, one factory object\<close>

lemma length_heap_set: "length (heap_set h a k v) = length h"
  by (simp add: heap_set_def)

lemma heap_get_heap_set:
  "heap_get (heap_set h a k v) x =
     (if x = a \<and> a < length h then AList.update k v (heap_get h a) else heap_get h x)"
  by (auto simp: heap_get_def heap_set_def)

lemma copy_fold:
  assumes "src \<noteq> dst" "dst < length h"
  shows "length (fold (\<lambda>i h'. heap_set h' dst i (prop_get (heap_get h' src) i)) ks h) = length h \<and>
    (\<forall>x. x \<noteq> dst \<longrightarrow>
       heap_get (fold (\<lambda>i h'. heap_set h' dst i (prop_get (heap_get h' src) i)) ks h) x =
         heap_get h x) \<and>
    (\<forall>k. map_of (heap_get (fold (\<lambda>i h'. heap_set h' dst i (prop_get (heap_get h' src) i)) ks h) dst) k =
       (if k \<in> set ks then Some (prop_get (heap_get h src) k) else map_of (heap_get h dst) k))"
  using assms
proof (induction ks arbitrary: h)
  case Nil
  show ?case by simp
next
  case (Cons k ks)
  let ?h1 = "heap_set h dst k (prop_get (heap_get h src) k)"
  have l1: "dst < length ?h1" using Cons.prems(2) by (simp add: length_heap_set)
  have s1: "heap_get ?h1 src = heap_get h src"
    using Cons.prems(1) by (simp add: heap_get_heap_set)
  have d1: "map_of (heap_get ?h1 dst) = (map_of (heap_get h dst))(k \<mapsto> prop_get (heap_get h src) k)"
    using Cons.prems(2) by (simp add: heap_get_heap_set update_conv')
  have o1: "\<forall>x. x \<noteq> dst \<longrightarrow> heap_get ?h1 x = heap_get h x"
    by (simp add: heap_get_heap_set)
  from Cons.IH [OF Cons.prems(1) l1] show ?case
    unfolding fold_simps s1 d1 using o1 by (auto simp: length_heap_set)
qed

lemma map_of_prop_get:
  "(if k \<in> set (map fst ob) then Some (prop_get ob k) else None) = map_of ob k"
proof (cases "map_of ob k")
  case None
  then have "k \<notin> fst ` set ob" by (simp add: map_of_eq_None_iff)
  then show ?thesis unfolding None by simp
next
  case (Some v)
  then have "k \<in> fst ` set ob" by (metis map_of_eq_None_iff option.distinct(1))
  with Some show ?thesis by (simp add: prop_get_def)
qed

lemma build_pool_factory_frame:
  assumes "fac < length h"
  shows "\<exists>h3. build_pool_factory h fac create_fn = (h3, length h) \<and>
           length h3 = Suc (length h) \<and>
           (\<forall>x<length h. heap_get h3 x = heap_get h x) \<and>
           map_of (heap_get h3 (length h)) = (map_of (heap_get h fac))(''create'' \<mapsto> create_fn)"
proof -
  let ?pf = "length h"
  let ?h1 = "h @ [[]]"
  let ?h2 = "copy_fields ?h1 fac ?pf"
  let ?h3 = "heap_set ?h2 ?pf ''create'' create_fn"
  have ne: "fac \<noteq> ?pf" using assms by simp
  have g1: "heap_get ?h1 fac = heap_get h fac" using assms by (simp add: heap_get_def nth_append)
  have e1: "heap_get ?h1 ?pf = []" by (simp add: heap_get_def)
  have o1: "\<forall>x<length h. heap_get ?h1 x = heap_get h x" by (simp add: heap_get_def nth_append)
  from copy_fold [OF ne, of ?h1 "map fst (heap_get h fac)"]
  have c: "length ?h2 = Suc (length h)"
    "\<forall>x. x \<noteq> ?pf \<longrightarrow> heap_get ?h2 x = heap_get ?h1 x"
    "\<forall>k. map_of (heap_get ?h2 ?pf) k =
       (if k \<in> set (map fst (heap_get h fac)) then Some (prop_get (heap_get h fac) k) else None)"
    unfolding copy_fields_def g1 e1 by simp_all
  have m2: "map_of (heap_get ?h2 ?pf) = map_of (heap_get h fac)"
    using c(3) map_of_prop_get [of _ "heap_get h fac"] by auto
  have l3: "length ?h3 = Suc (length h)" using c(1) by (simp add: length_heap_set)
  have o3: "\<forall>x<length h. heap_get ?h3 x = heap_get h x"
    using c(2) o1 by (simp add: heap_get_heap_set)
  have m3: "map_of (heap_get ?h3 ?pf) = (map_of (heap_get h fac))(''create'' \<mapsto> create_fn)"
    using c(1) m2 by (simp add: heap_get_heap_set update_conv')
  have "build_pool_factory h fac create_fn = (?h3, ?pf)"
    by (simp add: build_pool_factory_def Let_def)
  with l3 o3 m3 show ?thesis by blast
qed

lemma add_frame:
  assumes "factory this < length h"
  shows "\<exists>h3. build_pool_factory h (factory this) create_fn = (h3, length h) \<and>
           length (fst (add Pool create_fn (h, this))) = Suc (length h) \<and>
           (\<forall>x<length h. heap_get h3 x = heap_get h x) \<and>
           (\<forall>x<length h. heap_get (fst (add Pool create_fn (h, this))) x = heap_get h x) \<and>
           map_of (heap_get h3 (length h)) =
             (map_of (heap_get h (factory this)))(''create'' \<mapsto> create_fn) \<and>
           heap_get (fst (add Pool create_fn (h, this))) (length h) =
             fst (Pool (heap_get h3 (length h))) \<and>
           snd (add Pool create_fn (h, this)) =
             this\<lparr>cluster := cluster this @ [snd (Pool (heap_get h3 (length h)))]\<rparr>"
proof -
  from build_pool_factory_frame [OF assms, of create_fn] obtain h3 where
    b: "build_pool_factory h (factory this) create_fn = (h3, length h)"
       "length h3 = Suc (length h)"
       "\<forall>x<length h. heap_get h3 x = heap_get h x"
       "map_of (heap_get h3 (length h)) = (map_of (heap_get h (factory this)))(''create'' \<mapsto> create_fn)"
    by blast
  have a: "add Pool create_fn (h, this) =
      (h3[length h := fst (Pool (heap_get h3 (length h)))],
       this\<lparr>cluster := cluster this @ [snd (Pool (heap_get h3 (length h)))]\<rparr>)"
    using b(1) by (simp add: add_def split: prod.splits)
  have "\<forall>x<length h. heap_get (h3[length h := fst (Pool (heap_get h3 (length h)))]) x = heap_get h x"
    using b(2,3) by (simp add: heap_get_def)
  moreover have "heap_get (h3[length h := fst (Pool (heap_get h3 (length h)))]) (length h) =
      fst (Pool (heap_get h3 (length h)))"
    using b(2) by (simp add: heap_get_def)
  ultimately show ?thesis using a b by (intro exI [of _ h3]) simp
qed

subsection \<open>No sharing between cluster objects\<close>

lemma acquire_Delegate_range:
  "acquire pool_acquire this priority = (this', vs, Delegate i a) \<Longrightarrow> i < length (cluster this)"
  by (auto simp: acquire_def Let_def js_index_def
      split: if_splits sum.splits prod.splits option.splits)

lemma separated_initial: "separated (initial_store obs)"
  by (simp add: separated_def initial_store_def)

lemma separated_create: "separated s \<Longrightarrow> separated (fst (create fac s))"
  unfolding separated_def create_def
  by (auto simp: nth_append less_Suc_eq)

lemma separated_store_add:
  assumes "separated s"
  shows "separated (store_add Pool h create_fn s)"
proof (cases "h < length (s_mes s)")
  case False
  then show ?thesis using assms by (simp add: store_add_def)
next
  case True
  let ?r = "me_cluster (s_mes s ! h)"
  let ?n = "length (s_pools s)"
  obtain h3 pf where b: "build_pool_factory (s_objects s) (me_factory (s_mes s ! h)) create_fn = (h3, pf)"
    by (cases "build_pool_factory (s_objects s) (me_factory (s_mes s ! h)) create_fn")
  obtain ob p where c: "Pool (heap_get h3 pf) = (ob, p)"
    by (cases "Pool (heap_get h3 pf)")
  let ?s' = "s\<lparr>s_objects := h3[pf := ob], s_pools := s_pools s @ [p],
               s_arrays := (s_arrays s)[?r := s_arrays s ! ?r @ [?n]]\<rparr>"
  have eq: "store_add Pool h create_fn s = ?s'"
    using True b c by (simp add: store_add_def)
  have rl: "?r < length (s_arrays s)" using assms True by (simp add: separated_def)
  have old: "\<forall>r<length (s_arrays s). \<forall>q\<in>set (s_arrays s ! r). q < ?n"
    using assms by (simp add: separated_def)
  have dis: "\<forall>r<length (s_arrays s). \<forall>r'<length (s_arrays s).
      r \<noteq> r' \<longrightarrow> set (s_arrays s ! r) \<inter> set (s_arrays s ! r') = {}"
    using assms by (simp add: separated_def)
  have a1: "\<forall>h<length (s_mes ?s'). me_cluster (s_mes ?s' ! h) < length (s_arrays ?s')"
    using assms by (simp add: separated_def)
  have a2: "\<forall>h<length (s_mes ?s'). \<forall>h'<length (s_mes ?s').
      h \<noteq> h' \<longrightarrow> me_cluster (s_mes ?s' ! h) \<noteq> me_cluster (s_mes ?s' ! h')"
    using assms by (simp add: separated_def)
  have a3: "\<forall>r<length (s_arrays ?s'). \<forall>q\<in>set (s_arrays ?s' ! r). q < length (s_pools ?s')"
  proof (intro allI impI ballI)
    fix r q assume r: "r < length (s_arrays ?s')" and q: "q \<in> set (s_arrays ?s' ! r)"
    show "q < length (s_pools ?s')"
    proof (cases "r = ?r")
      case True
      with q rl have "q \<in> set (s_arrays s ! ?r) \<or> q = ?n" by auto
      moreover have "\<forall>q\<in>set (s_arrays s ! ?r). q < ?n" using old rl by blast
      ultimately show ?thesis by (auto simp: less_Suc_eq)
    next
      case False
      with q r have "q \<in> set (s_arrays s ! r)" by simp
      moreover have "\<forall>q\<in>set (s_arrays s ! r). q < ?n" using old r by simp
      ultimately show ?thesis by (auto simp: less_Suc_eq)
    qed
  qed
  have a4: "\<forall>r<length (s_arrays ?s'). \<forall>r'<length (s_arrays ?s').
      r \<noteq> r' \<longrightarrow> set (s_arrays ?s' ! r) \<inter> set (s_arrays ?s' ! r') = {}"
  proof (intro allI impI)
    fix r r' assume r: "r < length (s_arrays ?s')" and r': "r' < length (s_arrays ?s')"
      and ne: "r \<noteq> r'"
    have base: "set (s_arrays s ! r) \<inter> set (s_arrays s ! r') = {}"
      using dis r r' ne by simp
    have fr: "?n \<notin> set (s_arrays s ! r)" "?n \<notin> set (s_arrays s ! r')"
      using old r r' by auto
    have upd: "set (s_arrays ?s' ! k) =
        (if k = ?r then insert ?n (set (s_arrays s ! k)) else set (s_arrays s ! k))"
      if "k < length (s_arrays s)" for k
      using that by (simp add: nth_list_update)
    have lr: "r < length (s_arrays s)" and lr': "r' < length (s_arrays s)"
      using r r' by simp_all
    show "set (s_arrays ?s' ! r) \<inter> set (s_arrays ?s' ! r') = {}"
      unfolding upd [OF lr] upd [OF lr'] using base fr ne by (auto split: if_splits)
  qed
  have a5: "\<forall>r<length (s_arrays ?s'). distinct (s_arrays ?s' ! r)"
  proof (intro allI impI)
    fix r assume r: "r < length (s_arrays ?s')"
    have d: "distinct (s_arrays s ! r)" using assms r by (simp add: separated_def)
    have "?n \<notin> set (s_arrays s ! r)" using old r by auto
    with d r show "distinct (s_arrays ?s' ! r)"
      by (cases "r = ?r") (simp_all add: nth_list_update)
  qed
  show ?thesis unfolding eq separated_def using a1 a2 a3 a5 a4 by (intro conjI)
qed

lemma separated_store_acquire:
  assumes "separated s"
  shows "separated (fst (store_acquire pool_acquire h priority s))"
proof -
  have "length (s_mes (fst (store_acquire pool_acquire h priority s))) = length (s_mes s) \<and>
        (\<forall>k. me_cluster (s_mes (fst (store_acquire pool_acquire h priority s)) ! k) =
              me_cluster (s_mes s ! k)) \<and>
        s_arrays (fst (store_acquire pool_acquire h priority s)) = s_arrays s \<and>
        length (s_pools (fst (store_acquire pool_acquire h priority s))) = length (s_pools s)"
    by (auto simp: store_acquire_def Let_def nth_list_update split: prod.splits outcome.splits)
  with assms show ?thesis by (simp add: separated_def)
qed

lemma separated_store_run:
  "separated s \<Longrightarrow> separated (store_run Pool pool_acquire calls s)"
  unfolding store_run_def
proof (induction calls arbitrary: s)
  case Nil
  then show ?case by simp
next
  case (Cons c calls)
  have "separated (apply_call Pool pool_acquire s c)"
    using Cons.prems
    by (cases c) (simp_all add: separated_create separated_store_add separated_store_acquire)
  from Cons.IH [OF this] show ?case by simp
qed

lemma store_add_frame:
  assumes sep: "separated s" and a: "a < length (s_mes s)" and b: "b < length (s_mes s)"
    and ne: "a \<noteq> b"
  shows "this_of (store_add Pool a create_fn s) b = this_of s b"
    and "s_mes (store_add Pool a create_fn s) ! b = s_mes s ! b"
    and "s_arrays (store_add Pool a create_fn s) ! me_cluster (s_mes s ! b) =
           s_arrays s ! me_cluster (s_mes s ! b)"
proof -
  let ?ra = "me_cluster (s_mes s ! a)" and ?rb = "me_cluster (s_mes s ! b)"
  obtain h3 pf where bp: "build_pool_factory (s_objects s) (me_factory (s_mes s ! a)) create_fn = (h3, pf)"
    by (cases "build_pool_factory (s_objects s) (me_factory (s_mes s ! a)) create_fn")
  obtain ob p where c: "Pool (heap_get h3 pf) = (ob, p)"
    by (cases "Pool (heap_get h3 pf)")
  let ?s' = "s\<lparr>s_objects := h3[pf := ob], s_pools := s_pools s @ [p],
               s_arrays := (s_arrays s)[?ra := s_arrays s ! ?ra @ [length (s_pools s)]]\<rparr>"
  have eq: "store_add Pool a create_fn s = ?s'"
    using a bp c by (simp add: store_add_def)
  have rne: "?ra \<noteq> ?rb" using sep a b ne by (simp add: separated_def)
  have rb: "?rb < length (s_arrays s)" using sep b by (simp add: separated_def)
  have inr: "\<forall>q\<in>set (s_arrays s ! ?rb). q < length (s_pools s)"
    using sep rb by (simp add: separated_def)
  show m: "s_mes (store_add Pool a create_fn s) ! b = s_mes s ! b" by (simp add: eq)
  show ar: "s_arrays (store_add Pool a create_fn s) ! ?rb = s_arrays s ! ?rb"
    using rne by (simp add: eq)
  have "map (\<lambda>q. (s_pools s @ [p]) ! q) (s_arrays s ! ?rb) =
        map (\<lambda>q. s_pools s ! q) (s_arrays s ! ?rb)"
    using inr by (simp add: nth_append)
  then show "this_of (store_add Pool a create_fn s) b = this_of s b"
    using rne by (simp add: eq this_of_def)
qed

lemma store_acquire_frame:
  assumes sep: "separated s" and a: "a < length (s_mes s)" and b: "b < length (s_mes s)"
    and ne: "a \<noteq> b"
  shows "this_of (fst (store_acquire pool_acquire a priority s)) b = this_of s b"
    and "s_mes (fst (store_acquire pool_acquire a priority s)) ! b = s_mes s ! b"
    and "s_arrays (fst (store_acquire pool_acquire a priority s)) = s_arrays s"
proof -
  let ?ra = "me_cluster (s_mes s ! a)" and ?rb = "me_cluster (s_mes s ! b)"
  let ?s' = "fst (store_acquire pool_acquire a priority s)"
  obtain this' vs out where r: "acquire pool_acquire (this_of s a) priority = (this', vs, out)"
    by (cases "acquire pool_acquire (this_of s a) priority")
  have ra: "?ra < length (s_arrays s)" and rb: "?rb < length (s_arrays s)"
    using sep a b by (simp_all add: separated_def)
  have rne: "?ra \<noteq> ?rb" using sep a b ne by (simp add: separated_def)
  have dis: "set (s_arrays s ! ?ra) \<inter> set (s_arrays s ! ?rb) = {}"
    using sep ra rb rne by (simp add: separated_def)
  show m: "s_mes ?s' ! b = s_mes s ! b"
    using a ne r by (simp add: store_acquire_def Let_def split: outcome.splits)
  show ar: "s_arrays ?s' = s_arrays s"
    using a r by (simp add: store_acquire_def Let_def split: outcome.splits)
  have pools: "\<forall>q\<in>set (s_arrays s ! ?rb). s_pools ?s' ! q = s_pools s ! q"
  proof (cases out)
    case (Delegate i x)
    with r have "i < length (cluster (this_of s a))" using acquire_Delegate_range by blast
    then have "i < length (s_arrays s ! ?ra)" by (simp add: this_of_def)
    then have "s_arrays s ! ?ra ! i \<in> set (s_arrays s ! ?ra)" by simp
    with dis have "s_arrays s ! ?ra ! i \<notin> set (s_arrays s ! ?rb)" by blast
    then have "\<forall>q\<in>set (s_arrays s ! ?rb). s_arrays s ! ?ra ! i \<noteq> q" by blast
    then show ?thesis
      using a r Delegate by (simp add: store_acquire_def Let_def)
  next
    case (Callback x)
    then show ?thesis using a r by (simp add: store_acquire_def Let_def)
  next
    case (Throw x)
    then show ?thesis using a r by (simp add: store_acquire_def Let_def)
  qed
  then have "map (\<lambda>q. s_pools ?s' ! q) (s_arrays s ! ?rb) =
             map (\<lambda>q. s_pools s ! q) (s_arrays s ! ?rb)"
    by simp
  then show "this_of ?s' b = this_of s b"
    unfolding this_of_def m ar by simp
qed

lemma create_new:
  "separated s \<Longrightarrow> this_of (fst (create fac s)) (snd (create fac s)) = new_me fac"
  by (simp add: create_def this_of_def new_me_def nth_append)


subsection \<open>The store and the cluster object by value agree\<close>

lemma acquire_effect:
  assumes "acquire pool_acquire this priority = (this', vs, out)"
  shows "factory this' = factory this \<and>
     (case out of
        Delegate i a \<Rightarrow>
          i < length (cluster this) \<and>
          cluster this' = (cluster this)[i := pool_acquire (cluster this ! i) a]
      | _ \<Rightarrow> cluster this' = cluster this)"
  using assms
  by (auto simp: acquire_def Let_def js_index_def
      split: if_splits sum.splits prod.splits option.splits)

lemma map_nth_update_distinct:
  assumes "distinct arr" "i < length arr"
  shows "map (\<lambda>q. xs[arr ! i := v] ! q) arr = (map (\<lambda>q. xs ! q) arr)[i := xs[arr ! i := v] ! (arr ! i)]"
proof (rule nth_equalityI)
  show "length (map (\<lambda>q. xs[arr ! i := v] ! q) arr) =
        length ((map (\<lambda>q. xs ! q) arr)[i := xs[arr ! i := v] ! (arr ! i)])"
    by simp
  fix j assume "j < length (map (\<lambda>q. xs[arr ! i := v] ! q) arr)"
  then have j: "j < length arr" by simp
  show "map (\<lambda>q. xs[arr ! i := v] ! q) arr ! j =
        (map (\<lambda>q. xs ! q) arr)[i := xs[arr ! i := v] ! (arr ! i)] ! j"
  proof (cases "j = i")
    case True
    then show ?thesis using j by simp
  next
    case False
    then have "arr ! i \<noteq> arr ! j"
      using assms j by (simp add: nth_eq_iff_index_eq)
    then show ?thesis using j False by simp
  qed
qed

lemma store_acquire_this:
  assumes sep: "separated s" and h: "h < length (s_mes s)"
  shows "this_of (fst (store_acquire pool_acquire h priority s)) h =
           fst (acquire pool_acquire (this_of s h) priority)"
    and "snd (store_acquire pool_acquire h priority s) =
           snd (snd (acquire pool_acquire (this_of s h) priority))"
proof -
  let ?arr = "s_arrays s ! me_cluster (s_mes s ! h)"
  obtain this' vs out where r: "acquire pool_acquire (this_of s h) priority = (this', vs, out)"
    by (cases "acquire pool_acquire (this_of s h) priority")
  have rl: "me_cluster (s_mes s ! h) < length (s_arrays s)"
    using sep h by (simp add: separated_def)
  have d: "distinct ?arr" and inr: "\<forall>q\<in>set ?arr. q < length (s_pools s)"
    using sep rl by (simp_all add: separated_def)
  note e = acquire_effect [OF r]
  show "snd (store_acquire pool_acquire h priority s) =
           snd (snd (acquire pool_acquire (this_of s h) priority))"
    using h r by (simp add: store_acquire_def Let_def split: outcome.splits)
  show "this_of (fst (store_acquire pool_acquire h priority s)) h =
           fst (acquire pool_acquire (this_of s h) priority)"
  proof (cases out)
    case (Delegate i a)
    with e have i: "i < length ?arr"
      and c: "cluster this' = (cluster (this_of s h))[i := pool_acquire (cluster (this_of s h) ! i) a]"
      and f: "factory this' = factory (this_of s h)"
      by (simp_all add: this_of_def)
    have il: "?arr ! i < length (s_pools s)" using inr i by simp
    have "map (\<lambda>q. (s_pools s)[?arr ! i := pool_acquire (s_pools s ! (?arr ! i)) a] ! q) ?arr =
          (map (\<lambda>q. s_pools s ! q) ?arr)[i := pool_acquire (s_pools s ! (?arr ! i)) a]"
      using map_nth_update_distinct [OF d i, of "s_pools s" "pool_acquire (s_pools s ! (?arr ! i)) a"] il
      by simp
    then have "cluster (this_of (fst (store_acquire pool_acquire h priority s)) h) = cluster this'"
      using h r Delegate c i by (simp add: store_acquire_def Let_def this_of_def)
    moreover have "index (this_of (fst (store_acquire pool_acquire h priority s)) h) = index this'"
      using h r Delegate by (simp add: store_acquire_def Let_def this_of_def)
    moreover have "factory (this_of (fst (store_acquire pool_acquire h priority s)) h) = factory this'"
      using h r Delegate f by (simp add: store_acquire_def Let_def this_of_def)
    ultimately show ?thesis using r by (simp add: me.equality)
  next
    case (Callback x)
    with e have "cluster this' = cluster (this_of s h)" "factory this' = factory (this_of s h)"
      by simp_all
    then show ?thesis
      using h r Callback by (simp add: store_acquire_def Let_def this_of_def me.equality)
  next
    case (Throw x)
    with e have "cluster this' = cluster (this_of s h)" "factory this' = factory (this_of s h)"
      by simp_all
    then show ?thesis
      using h r Throw by (simp add: store_acquire_def Let_def this_of_def me.equality)
  qed
qed

lemma store_add_this:
  assumes sep: "separated s" and h: "h < length (s_mes s)"
  shows "this_of (store_add Pool h create_fn s) h =
           snd (add Pool create_fn (s_objects s, this_of s h))"
    and "s_objects (store_add Pool h create_fn s) =
           fst (add Pool create_fn (s_objects s, this_of s h))"
proof -
  let ?r = "me_cluster (s_mes s ! h)"
  obtain h3 pf where b: "build_pool_factory (s_objects s) (me_factory (s_mes s ! h)) create_fn = (h3, pf)"
    by (cases "build_pool_factory (s_objects s) (me_factory (s_mes s ! h)) create_fn")
  obtain ob p where c: "Pool (heap_get h3 pf) = (ob, p)"
    by (cases "Pool (heap_get h3 pf)")
  have rl: "?r < length (s_arrays s)" using sep h by (simp add: separated_def)
  have inr: "\<forall>q\<in>set (s_arrays s ! ?r). q < length (s_pools s)"
    using sep rl by (simp add: separated_def)
  have m: "map (\<lambda>q. (s_pools s @ [p]) ! q) (s_arrays s ! ?r) =
           map (\<lambda>q. s_pools s ! q) (s_arrays s ! ?r)"
    using inr by (simp add: nth_append)
  show "this_of (store_add Pool h create_fn s) h =
           snd (add Pool create_fn (s_objects s, this_of s h))"
    using h b c rl m by (simp add: store_add_def add_def this_of_def)
  show "s_objects (store_add Pool h create_fn s) =
           fst (add Pool create_fn (s_objects s, this_of s h))"
    using h b c by (simp add: store_add_def add_def this_of_def)
qed

text \<open>
  C8. In every store that a program of \<^verbatim>\<open>create\<close>, \<^verbatim>\<open>add\<close> and \<^verbatim>\<open>acquire\<close> calls
  builds, two different cluster objects refer to different arrays with no pool in common,
  and an \<^verbatim>\<open>add\<close> or an \<^verbatim>\<open>acquire\<close> called on one of them leaves the other as it was:
  its index, its array of members, the state of each of its members, and so the four
  statistics it reports. Two calls of \<^verbatim>\<open>create\<close> return two different handles, each
  to a new cluster object with an array of its own.
\<close>

theorem clusters_isolated:
  assumes "s = store_run Pool pool_acquire calls (initial_store obs)"
    and "a < length (s_mes s)" and "b < length (s_mes s)" and "a \<noteq> b"
  shows "me_cluster (s_mes s ! a) \<noteq> me_cluster (s_mes s ! b) \<and>
     set (s_arrays s ! me_cluster (s_mes s ! a)) \<inter> set (s_arrays s ! me_cluster (s_mes s ! b)) = {} \<and>
     s_mes (store_add Pool a create_fn s) ! b = s_mes s ! b \<and>
     s_arrays (store_add Pool a create_fn s) ! me_cluster (s_mes s ! b) =
       s_arrays s ! me_cluster (s_mes s ! b) \<and>
     this_of (store_add Pool a create_fn s) b = this_of s b \<and>
     getClusterSize (this_of (store_add Pool a create_fn s) b) = getClusterSize (this_of s b) \<and>
     getPoolSize (this_of (store_add Pool a create_fn s) b) = getPoolSize (this_of s b) \<and>
     availableObjectsCount (this_of (store_add Pool a create_fn s) b) =
       availableObjectsCount (this_of s b) \<and>
     waitingClientsCount (this_of (store_add Pool a create_fn s) b) =
       waitingClientsCount (this_of s b) \<and>
     s_mes (fst (store_acquire pool_acquire a priority s)) ! b = s_mes s ! b \<and>
     s_arrays (fst (store_acquire pool_acquire a priority s)) ! me_cluster (s_mes s ! b) =
       s_arrays s ! me_cluster (s_mes s ! b) \<and>
     this_of (fst (store_acquire pool_acquire a priority s)) b = this_of s b \<and>
     getClusterSize (this_of (fst (store_acquire pool_acquire a priority s)) b) =
       getClusterSize (this_of s b) \<and>
     getPoolSize (this_of (fst (store_acquire pool_acquire a priority s)) b) =
       getPoolSize (this_of s b) \<and>
     availableObjectsCount (this_of (fst (store_acquire pool_acquire a priority s)) b) =
       availableObjectsCount (this_of s b) \<and>
     waitingClientsCount (this_of (fst (store_acquire pool_acquire a priority s)) b) =
       waitingClientsCount (this_of s b) \<and>
     (case create fa s of
        (s1, h1) \<Rightarrow>
          (case create fb s1 of
             (s2, h2) \<Rightarrow>
               h1 \<noteq> h2 \<and> h1 < length (s_mes s2) \<and> h2 < length (s_mes s2) \<and>
               this_of s2 h1 = new_me fa \<and> this_of s2 h2 = new_me fb \<and>
               me_cluster (s_mes s2 ! h1) \<noteq> me_cluster (s_mes s2 ! h2)))"
proof -
  have sep: "separated s"
    unfolding assms(1) using separated_initial by (rule separated_store_run)
  have ra: "me_cluster (s_mes s ! a) < length (s_arrays s)"
    and rb: "me_cluster (s_mes s ! b) < length (s_arrays s)"
    using sep assms(2,3) by (simp_all add: separated_def)
  have p1: "me_cluster (s_mes s ! a) \<noteq> me_cluster (s_mes s ! b)"
    using sep assms(2,3,4) by (simp add: separated_def)
  have p2: "set (s_arrays s ! me_cluster (s_mes s ! a)) \<inter>
            set (s_arrays s ! me_cluster (s_mes s ! b)) = {}"
    using sep ra rb p1 by (simp add: separated_def)
  note fa = store_add_frame [OF sep assms(2,3,4), of Pool create_fn]
  note fq = store_acquire_frame [OF sep assms(2,3,4), of pool_acquire priority]
  have p3: "case create fa s of
        (s1, h1) \<Rightarrow>
          (case create fb s1 of
             (s2, h2) \<Rightarrow>
               h1 \<noteq> h2 \<and> h1 < length (s_mes s2) \<and> h2 < length (s_mes s2) \<and>
               this_of s2 h1 = new_me fa \<and> this_of s2 h2 = new_me fb \<and>
               me_cluster (s_mes s2 ! h1) \<noteq> me_cluster (s_mes s2 ! h2))"
    by (simp add: create_def this_of_def new_me_def nth_append)
  show ?thesis
    using p1 p2 p3 fa fq by (simp only: simp_thms)
qed

theorem clusters_isolated_witness:
  "((0::nat) < length (s_mes (store_run
        (\<lambda>ob. (ob, \<lparr>pool_waitingClientsCount = 0, pool_getPoolSize = 0, pool_availableObjectsCount = 0\<rparr>))
        (\<lambda>p q. p\<lparr>pool_waitingClientsCount := pool_waitingClientsCount p + 1\<rparr>)
        [Create 0, Create 0, CallAdd 0 (Fun 1), CallAdd 1 (Fun 2), CallAcquire 1 None]
        (initial_store [[(''max'', Num 4)]]))) \<and>
    (1::nat) < length (s_mes (store_run
        (\<lambda>ob. (ob, \<lparr>pool_waitingClientsCount = 0, pool_getPoolSize = 0, pool_availableObjectsCount = 0\<rparr>))
        (\<lambda>p q. p\<lparr>pool_waitingClientsCount := pool_waitingClientsCount p + 1\<rparr>)
        [Create 0, Create 0, CallAdd 0 (Fun 1), CallAdd 1 (Fun 2), CallAcquire 1 None]
        (initial_store [[(''max'', Num 4)]]))) \<and>
    (0::nat) \<noteq> 1) \<and>
   this_of (store_add
        (\<lambda>ob. (ob, \<lparr>pool_waitingClientsCount = 0, pool_getPoolSize = 0, pool_availableObjectsCount = 0\<rparr>))
        0 (Fun 3)
        (store_run
          (\<lambda>ob. (ob, \<lparr>pool_waitingClientsCount = 0, pool_getPoolSize = 0, pool_availableObjectsCount = 0\<rparr>))
          (\<lambda>p q. p\<lparr>pool_waitingClientsCount := pool_waitingClientsCount p + 1\<rparr>)
          [Create 0, Create 0, CallAdd 0 (Fun 1), CallAdd 1 (Fun 2), CallAcquire 1 None]
          (initial_store [[(''max'', Num 4)]]))) 1 =
     \<lparr>cluster = [\<lparr>pool_waitingClientsCount = 1, pool_getPoolSize = 0, pool_availableObjectsCount = 0\<rparr>],
       index = 0, factory = 0\<rparr> \<and>
   this_of (fst (store_acquire
        (\<lambda>p q. p\<lparr>pool_waitingClientsCount := pool_waitingClientsCount p + 1\<rparr>)
        0 None
        (store_run
          (\<lambda>ob. (ob, \<lparr>pool_waitingClientsCount = 0, pool_getPoolSize = 0, pool_availableObjectsCount = 0\<rparr>))
          (\<lambda>p q. p\<lparr>pool_waitingClientsCount := pool_waitingClientsCount p + 1\<rparr>)
          [Create 0, Create 0, CallAdd 0 (Fun 1), CallAdd 1 (Fun 2), CallAcquire 1 None]
          (initial_store [[(''max'', Num 4)]])))) 1 =
     \<lparr>cluster = [\<lparr>pool_waitingClientsCount = 1, pool_getPoolSize = 0, pool_availableObjectsCount = 0\<rparr>],
       index = 0, factory = 0\<rparr>"
proof -
  let ?Pool = "\<lambda>ob :: obj. (ob, \<lparr>pool_waitingClientsCount = 0, pool_getPoolSize = 0, pool_availableObjectsCount = 0\<rparr>)"
  let ?pa = "\<lambda>(p :: pool) (q :: int option). p\<lparr>pool_waitingClientsCount := pool_waitingClientsCount p + 1\<rparr>"
  let ?s = "store_run ?Pool ?pa
      [Create 0, Create 0, CallAdd 0 (Fun 1), CallAdd 1 (Fun 2), CallAcquire 1 None]
      (initial_store [[(''max'', Num 4)]])"
  have l: "length (s_mes ?s) = 2" by code_simp
  have v: "this_of ?s 1 =
      \<lparr>cluster = [\<lparr>pool_waitingClientsCount = 1, pool_getPoolSize = 0, pool_availableObjectsCount = 0\<rparr>],
        index = 0, factory = 0\<rparr>"
    by code_simp
  have h: "0 < length (s_mes ?s)" "1 < length (s_mes ?s)" "(0::nat) \<noteq> 1"
    using l by simp_all
  from clusters_isolated [OF refl h, of "Fun 3" None 0 0]
  have "this_of (store_add ?Pool 0 (Fun 3) ?s) 1 = this_of ?s 1"
    and "this_of (fst (store_acquire ?pa 0 None ?s)) 1 = this_of ?s 1"
    by blast+
  with v h show ?thesis by simp
qed

text \<open>
  C10. \<^verbatim>\<open>add\<close> on a cluster whose factory is an object of the heap writes to no object
  that existed before the call, so the factory object, the objects of the members added
  earlier and every other cluster are as they were. The object handed to the pool
  constructor is a new one, at a new address, whose properties are those of the factory
  object with \<^verbatim>\<open>create\<close> set to the producer given; whatever the constructor leaves in
  it stays in that new object. The member list grows by the new pool at its end.
\<close>

theorem add_leaves_factory_untouched:
  "a < length (clusters w) \<and> factory (clusters w ! a) < length (heap w) \<longrightarrow>
     (\<forall>x<length (heap w). heap_get (heap (call_add Pool a create_fn w)) x = heap_get (heap w) x) \<and>
     (\<exists>h3. build_pool_factory (heap w) (factory (clusters w ! a)) create_fn = (h3, length (heap w)) \<and>
        (\<forall>x<length (heap w). heap_get h3 x = heap_get (heap w) x) \<and>
        map_of (heap_get h3 (length (heap w))) =
          (map_of (heap_get (heap w) (factory (clusters w ! a))))(''create'' \<mapsto> create_fn) \<and>
        heap_get (heap (call_add Pool a create_fn w)) (length (heap w)) =
          fst (Pool (heap_get h3 (length (heap w)))) \<and>
        clusters (call_add Pool a create_fn w) ! a =
          (clusters w ! a)\<lparr>cluster := cluster (clusters w ! a) @ [snd (Pool (heap_get h3 (length (heap w))))]\<rparr>) \<and>
     (\<forall>b<length (clusters w). b \<noteq> a \<longrightarrow>
        clusters (call_add Pool a create_fn w) ! b = clusters w ! b) \<and>
     length (clusters (call_add Pool a create_fn w)) = length (clusters w)"
proof
  assume h: "a < length (clusters w) \<and> factory (clusters w ! a) < length (heap w)"
  let ?me = "clusters w ! a"
  let ?r = "add Pool create_fn (heap w, ?me)"
  have ca: "call_add Pool a create_fn w = \<lparr>heap = fst ?r, clusters = (clusters w)[a := snd ?r]\<rparr>"
    using h by (simp add: call_add_def split: prod.splits)
  from h have f: "factory ?me < length (heap w)" by simp
  from add_frame [OF f, of create_fn Pool] obtain h3 where
    b: "build_pool_factory (heap w) (factory ?me) create_fn = (h3, length (heap w))"
       "\<forall>x<length (heap w). heap_get h3 x = heap_get (heap w) x"
       "\<forall>x<length (heap w). heap_get (fst ?r) x = heap_get (heap w) x"
       "map_of (heap_get h3 (length (heap w))) =
          (map_of (heap_get (heap w) (factory ?me)))(''create'' \<mapsto> create_fn)"
       "heap_get (fst ?r) (length (heap w)) = fst (Pool (heap_get h3 (length (heap w))))"
       "snd ?r = ?me\<lparr>cluster := cluster ?me @ [snd (Pool (heap_get h3 (length (heap w))))]\<rparr>"
    by blast
  have p1: "\<forall>x<length (heap w). heap_get (heap (call_add Pool a create_fn w)) x = heap_get (heap w) x"
    using b(3) by (simp add: ca)
  have p2: "\<exists>h3. build_pool_factory (heap w) (factory ?me) create_fn = (h3, length (heap w)) \<and>
        (\<forall>x<length (heap w). heap_get h3 x = heap_get (heap w) x) \<and>
        map_of (heap_get h3 (length (heap w))) =
          (map_of (heap_get (heap w) (factory ?me)))(''create'' \<mapsto> create_fn) \<and>
        heap_get (heap (call_add Pool a create_fn w)) (length (heap w)) =
          fst (Pool (heap_get h3 (length (heap w)))) \<and>
        clusters (call_add Pool a create_fn w) ! a =
          ?me\<lparr>cluster := cluster ?me @ [snd (Pool (heap_get h3 (length (heap w))))]\<rparr>"
    using b(1,2,4,5,6) h by (intro exI [of _ h3]) (simp add: ca)
  have p3: "\<forall>b<length (clusters w). b \<noteq> a \<longrightarrow>
        clusters (call_add Pool a create_fn w) ! b = clusters w ! b"
    by (simp add: ca)
  have p4: "length (clusters (call_add Pool a create_fn w)) = length (clusters w)"
    by (simp add: ca)
  from p1 p2 p3 p4 show
    "(\<forall>x<length (heap w). heap_get (heap (call_add Pool a create_fn w)) x = heap_get (heap w) x) \<and>
     (\<exists>h3. build_pool_factory (heap w) (factory (clusters w ! a)) create_fn = (h3, length (heap w)) \<and>
        (\<forall>x<length (heap w). heap_get h3 x = heap_get (heap w) x) \<and>
        map_of (heap_get h3 (length (heap w))) =
          (map_of (heap_get (heap w) (factory (clusters w ! a))))(''create'' \<mapsto> create_fn) \<and>
        heap_get (heap (call_add Pool a create_fn w)) (length (heap w)) =
          fst (Pool (heap_get h3 (length (heap w)))) \<and>
        clusters (call_add Pool a create_fn w) ! a =
          (clusters w ! a)\<lparr>cluster := cluster (clusters w ! a) @ [snd (Pool (heap_get h3 (length (heap w))))]\<rparr>) \<and>
     (\<forall>b<length (clusters w). b \<noteq> a \<longrightarrow>
        clusters (call_add Pool a create_fn w) ! b = clusters w ! b) \<and>
     length (clusters (call_add Pool a create_fn w)) = length (clusters w)"
    by (intro conjI)
qed

theorem add_leaves_factory_untouched_witness:
  "((0::nat) < 2 \<and> (0::nat) < 1) \<and>
   heap_get (heap (call_add
       (\<lambda>ob. (AList.update ''min'' (Num 0) ob,
              \<lparr>pool_waitingClientsCount = 0, pool_getPoolSize = 0, pool_availableObjectsCount = 0\<rparr>))
       0 (Fun 7)
       \<lparr>heap = [[(''max'', Num 4), (''name'', Str ''mysql'')]],
         clusters = [new_me 0, new_me 0]\<rparr>)) 0 =
     [(''max'', Num 4), (''name'', Str ''mysql'')] \<and>
   clusters (call_add
       (\<lambda>ob. (AList.update ''min'' (Num 0) ob,
              \<lparr>pool_waitingClientsCount = 0, pool_getPoolSize = 0, pool_availableObjectsCount = 0\<rparr>))
       0 (Fun 7)
       \<lparr>heap = [[(''max'', Num 4), (''name'', Str ''mysql'')]],
         clusters = [new_me 0, new_me 0]\<rparr>) ! 1 = new_me 0"
proof -
  let ?Pool = "\<lambda>ob :: obj. (AList.update ''min'' (Num 0) ob,
              \<lparr>pool_waitingClientsCount = 0, pool_getPoolSize = 0, pool_availableObjectsCount = 0\<rparr>)"
  let ?w = "\<lparr>heap = [[(''max'', Num 4), (''name'', Str ''mysql'')]], clusters = [new_me 0, new_me 0]\<rparr>"
  have h: "0 < length (clusters ?w) \<and> factory (clusters ?w ! 0) < length (heap ?w)"
    by (simp add: new_me_def)
  from add_leaves_factory_untouched [of 0 ?w ?Pool "Fun 7"] h
  have "\<forall>x<length (heap ?w). heap_get (heap (call_add ?Pool 0 (Fun 7) ?w)) x = heap_get (heap ?w) x"
    and "\<forall>b<length (clusters ?w). b \<noteq> 0 \<longrightarrow> clusters (call_add ?Pool 0 (Fun 7) ?w) ! b = clusters ?w ! b"
    by blast+
  then have "heap_get (heap (call_add ?Pool 0 (Fun 7) ?w)) 0 = heap_get (heap ?w) 0"
    and "clusters (call_add ?Pool 0 (Fun 7) ?w) ! 1 = clusters ?w ! 1"
    by simp_all
  then show ?thesis by (simp add: heap_get_def)
qed

end
